theory Spec2Isabelle
  imports Main "HOL-Library.AList"
begin

section \<open>Python values used by build_graph.py\<close>

text \<open>
  The only exception the two source files can raise by their own text is the
  \<^verbatim>\<open>KeyError\<close> of a dictionary subscript (\<^verbatim>\<open>article_map[article]\<close>).
  Failures inside the libraries (a connection error of \<^verbatim>\<open>requests.get\<close>, an
  operating-system error of \<^verbatim>\<open>open\<close>, a tag without the attribute that the list
  comprehension reads) are outside this embedding: the library calls are total functions
  of the environment below.
\<close>

datatype py_error = KeyError

text \<open>One registry entry: the dictionary \<^verbatim>\<open>{"path": ..., "link": ...}\<close>.\<close>

record article_data =
  path :: string
  link :: string

text \<open>
  A Python \<^verbatim>\<open>dict\<close> keeps its keys in insertion order, and \<^verbatim>\<open>main\<close> iterates over
  them, so a dictionary is an association list. \<^verbatim>\<open>d[k] = v\<close> is \<^const>\<open>AList.update\<close>:
  it replaces the value in place when the key is present and appends the pair otherwise.
  An association list stands for a dictionary when its keys are distinct.
\<close>

type_synonym article_dict = "(string \<times> article_data) list"
type_synonym graph_dict = "(string \<times> string list) list"
type_synonym outbound_link = "string \<times> string \<times> bool"

definition dict_get :: "(string \<times> 'v) list \<Rightarrow> string \<Rightarrow> py_error + 'v" where
  "dict_get d k = (case map_of d k of None \<Rightarrow> Inl KeyError | Some v \<Rightarrow> Inr v)"

text \<open>\<^verbatim>\<open>d.update(other)\<close>: every item of \<^verbatim>\<open>other\<close>, in its order, is stored in \<^verbatim>\<open>d\<close>.\<close>

definition dict_update :: "(string \<times> 'v) list \<Rightarrow> (string \<times> 'v) list \<Rightarrow> (string \<times> 'v) list" where
  "dict_update d other = fold (\<lambda>(k, v) acc. AList.update k v acc) other d"

text \<open>\<^verbatim>\<open>s.replace("/", "-")\<close> on a string of single characters.\<close>

definition replace_slash :: "string \<Rightarrow> string" where
  "replace_slash s = map (\<lambda>c. if c = CHR ''/'' then CHR ''-'' else c) s"

text \<open>\<^verbatim>\<open>os.path.join(a, b)\<close> of \<^verbatim>\<open>posixpath\<close> with two arguments.\<close>

definition os_path_join :: "string \<Rightarrow> string \<Rightarrow> string" where
  "os_path_join a b =
     (if b \<noteq> [] \<and> hd b = CHR ''/'' then b
      else if a = [] \<or> last a = CHR ''/'' then a @ b
      else a @ ''/'' @ b)"

text \<open>\<^verbatim>\<open>str(n)\<close> of an integer, as an f-string prints it.\<close>

fun digits :: "nat \<Rightarrow> string" where
  "digits n = (if n < 10 then [''0123456789'' ! n] else digits (n div 10) @ [''0123456789'' ! (n mod 10)])"

definition str_int :: "int \<Rightarrow> string" where
  "str_int i = (if i < 0 then ''-'' @ digits (nat (- i)) else digits (nat i))"

text \<open>
  \<^verbatim>\<open>list(set(value))\<close>: a list of the same elements without repetition. The order in
  which Python enumerates a set of strings depends on their hashes; the model fixes one
  order, and the theorems below speak of the elements and of their distinctness only.
\<close>

definition list_set :: "string list \<Rightarrow> string list" where
  "list_set value = remdups value"

section \<open>The world outside the program\<close>

text \<open>
  What the program reads and changes outside its own variables: the files that exist
  (a path with no entry does not exist), the URLs requested so far, and the lines printed.
  The field \<open>calls\<close> is a history added for the proofs, not a program variable: every
  invocation of \<^verbatim>\<open>explore_related\<close> appends its identifier and its depth argument on entry.
  Directories are not modelled (\<^verbatim>\<open>os.makedirs\<close> changes nothing here), nor is the progress
  bar of \<^verbatim>\<open>tqdm\<close>.
\<close>

record world =
  files :: "string \<rightharpoonup> string"
  requests :: "string list"
  stdout :: "string list"
  calls :: "(string \<times> int) list"

record response =
  status_code :: int
  text_of :: string

text \<open>
  The library functions whose results the program uses: \<^verbatim>\<open>requests.get\<close>, the two
  \<^verbatim>\<open>soup.find_all\<close> queries of \<^verbatim>\<open>explore_related\<close> on the parsed content of a file (each
  giving, per tag found, the text the comprehension reads and the \<^verbatim>\<open>href\<close>), and the JSON
  decoder and encoders used by \<^verbatim>\<open>main\<close>.
\<close>

record env =
  requests_get :: "string \<Rightarrow> response"
  find_term_tags :: "string \<Rightarrow> (string \<times> string) list"
  find_article_tags :: "string \<Rightarrow> (string \<times> string) list"
  json_load :: "string \<Rightarrow> article_dict"
  json_dump_map :: "article_dict \<Rightarrow> string"
  json_dump_graph :: "graph_dict \<Rightarrow> string"

definition os_path_exists :: "world \<Rightarrow> string \<Rightarrow> bool" where
  "os_path_exists w p = (files w p \<noteq> None)"

definition print :: "string \<Rightarrow> world \<Rightarrow> world" where
  "print s w = w\<lparr>stdout := stdout w @ [s]\<rparr>"

section \<open>download.py: get_article\<close>

text \<open>
  Lines 77 to 93. The write of lines 92 and 93 is taken to succeed: \<^verbatim>\<open>open\<close> raises when the
  operating system refuses the path (a missing directory, a file name that is too long),
  and that failure is not modelled. No statement below says of a path that the write to
  it succeeds in the real program.
\<close>

definition get_article :: "env \<Rightarrow> string \<Rightarrow> string \<Rightarrow> world \<Rightarrow> world" where
  "get_article e article_link file_path w =
     (let response = requests_get e article_link;
          w1 = w\<lparr>requests := requests w @ [article_link]\<rparr>;
          return_status = status_code response
      in if return_status \<noteq> 200
         then print (''Request returned '' @ str_int return_status @ '' status code for '' @ article_link) w1
         else w1\<lparr>files := (files w1)(file_path \<mapsto> text_of response)\<rparr>)"

section \<open>build_graph.py: explore_related\<close>

definition related_articles_folder :: "bool \<Rightarrow> string" where
  "related_articles_folder is_term = ''./data/'' @ (if is_term then ''term'' else ''article'') @ ''/''"

text \<open>
  Lines 63 to 89, the download step. The result is the shared \<^verbatim>\<open>article_map\<close> (changed in
  place by the source), the world, and the local \<^verbatim>\<open>article_submap\<close>. The source stores one
  \<^verbatim>\<open>article_data\<close> object in both dictionaries; no line changes such an object afterwards.
\<close>

definition download_step ::
  "env \<Rightarrow> article_dict \<Rightarrow> world \<Rightarrow> string \<Rightarrow> string \<Rightarrow> bool \<Rightarrow> bool
    \<Rightarrow> py_error + (article_dict \<times> world \<times> article_dict)" where
  "download_step e article_map w article article_url is_term restart =
     (let article_submap = [];
          article_unseen = (article \<notin> set (map fst article_map))
      in if restart \<or> article_unseen then
           (if article_unseen then
              (let article_cleaned = replace_slash article;
                   article_path = os_path_join (related_articles_folder is_term) (article_cleaned @ ''.html'');
                   article_data = \<lparr>path = article_path, link = article_url\<rparr>
               in Inr (AList.update article article_data article_map,
                       get_article e article_url article_path w,
                       AList.update article article_data article_submap))
            else
              (case dict_get article_map article of
                 Inl err \<Rightarrow> Inl err
               | Inr d \<Rightarrow> Inr (article_map, get_article e article_url (path d) w, article_submap)))
         else Inr (article_map, w, article_submap))"

text \<open>Lines 117 to 141: both comprehensions build triples whose third component is \<^verbatim>\<open>True\<close>.\<close>

definition outbound_links_of :: "env \<Rightarrow> string \<Rightarrow> outbound_link list" where
  "outbound_links_of e content =
     [(t, h, True). (t, h) \<leftarrow> find_term_tags e content] @
     [(t, h, True). (t, h) \<leftarrow> find_article_tags e content]"

text \<open>Lines 144 to 151.\<close>

definition add_own_edges :: "graph_dict \<Rightarrow> string \<Rightarrow> outbound_link list \<Rightarrow> graph_dict" where
  "add_own_edges graph_submap article outbound_links =
     (case map_of graph_submap article of
        Some old \<Rightarrow> AList.update article (old @ map fst outbound_links) graph_submap
      | None \<Rightarrow> AList.update article (map fst outbound_links) graph_submap)"

text \<open>
  Lines 178 to 182 (and 305 to 309 of \<^verbatim>\<open>main\<close>): for every item of the returned graph,
  extend the list of a key that is present, store the list of a key that is not. The list
  stored for a new key is the list object of the returned dictionary; that dictionary is
  dropped right after the merge and every list it holds was made afresh by the collapse
  of the callee, so extending the list later in place is seen nowhere else and the lists
  can be values here.
\<close>

definition merge_graph :: "graph_dict \<Rightarrow> graph_dict \<Rightarrow> graph_dict" where
  "merge_graph graph_submap graph_sub_submap =
     fold (\<lambda>(graph_node, graph_values) acc.
             case map_of acc graph_node of
               Some old \<Rightarrow> AList.update graph_node (old @ graph_values) acc
             | None \<Rightarrow> AList.update graph_node graph_values acc)
          graph_sub_submap graph_submap"

text \<open>Lines 196 and 197 (and 323 and 324 of \<^verbatim>\<open>main\<close>).\<close>

definition collapse :: "graph_dict \<Rightarrow> graph_dict" where
  "collapse graph_submap =
     fold (\<lambda>(key, value) acc. AList.update key (list_set value) acc) graph_submap graph_submap"

text \<open>Lines 102 and 103: the two lines printed when the local copy is not there.\<close>

definition report_missing :: "string \<Rightarrow> string \<Rightarrow> world \<Rightarrow> world" where
  "report_missing article_path article w =
     print ''Please make sure download.py has been run to completion before running this script.''
       (print (''Error: Did not detect local file '' @ article_path @ '' for '' @ article) w)"

text \<open>
  \<^verbatim>\<open>explore_related\<close> and its loop over the outbound links (lines 161 to 189). The loop
  carries the shared registry, the world and the two local dictionaries.
  \<^verbatim>\<open>os.path.exists(article_path)\<close> is false exactly when the path has no file, and
  \<^verbatim>\<open>f.read()\<close> gives the content of the file otherwise.
\<close>

function
  explore_related ::
    "env \<Rightarrow> article_dict \<Rightarrow> world \<Rightarrow> string \<Rightarrow> string \<Rightarrow> bool \<Rightarrow> int \<Rightarrow> bool
      \<Rightarrow> py_error + (article_dict \<times> world \<times> article_dict \<times> graph_dict)"
and
  explore_links ::
    "env \<Rightarrow> article_dict \<Rightarrow> world \<Rightarrow> outbound_link list \<Rightarrow> int \<Rightarrow> bool \<Rightarrow> article_dict \<Rightarrow> graph_dict
      \<Rightarrow> py_error + (article_dict \<times> world \<times> article_dict \<times> graph_dict)"
where
  "explore_related e article_map w article article_url is_term depth restart =
     (case download_step e article_map (w\<lparr>calls := calls w @ [(article, depth)]\<rparr>)
             article article_url is_term restart of
        Inl err \<Rightarrow> Inl err
      | Inr (article_map1, w1, article_submap) \<Rightarrow>
          (case dict_get article_map1 article of
             Inl err \<Rightarrow> Inl err
           | Inr d \<Rightarrow>
               (case files w1 (path d) of
                  None \<Rightarrow> Inr (article_map1, report_missing (path d) article w1, article_submap, [])
                | Some content \<Rightarrow>
                    (let outbound_links = outbound_links_of e content;
                         graph_submap = add_own_edges [] article outbound_links
                     in case (if depth > 0
                              then explore_links e article_map1 w1 outbound_links depth restart
                                     article_submap graph_submap
                              else Inr (article_map1, w1, article_submap, graph_submap)) of
                          Inl err \<Rightarrow> Inl err
                        | Inr (article_map2, w2, article_submap2, graph_submap2) \<Rightarrow>
                            Inr (article_map2, w2, article_submap2, collapse graph_submap2)))))"
| "explore_links e article_map w [] depth restart article_submap graph_submap =
     Inr (article_map, w, article_submap, graph_submap)"
| "explore_links e article_map w (outbound_link # rest) depth restart article_submap graph_submap =
     (case outbound_link of (article_name, article_link, is_term) \<Rightarrow>
        (case explore_related e article_map w article_name article_link is_term (depth - 1) restart of
           Inl err \<Rightarrow> Inl err
         | Inr (article_map1, w1, article_sub_submap, graph_sub_submap) \<Rightarrow>
             explore_links e article_map1 w1 rest depth restart
               (dict_update article_submap article_sub_submap)
               (merge_graph graph_submap graph_sub_submap)))"
  by pat_completeness auto

termination
proof (relation "inv_image (less_than <*lex*> less_than)
    (\<lambda>x. case x of
       Inl (e, article_map, w, article, article_url, is_term, depth, restart) \<Rightarrow>
         (if depth > 0 then 2 * nat depth + 1 else 0, 0)
     | Inr (e, article_map, w, links, depth, restart, article_submap, graph_submap) \<Rightarrow>
         (if depth > 0 then 2 * nat depth else 1, length links))")
qed auto


declare explore_related.simps [simp del] explore_links.simps [simp del]

section \<open>build_graph.py: main\<close>

definition data_folder :: string where
  "data_folder = ''./graph''"

definition article_json :: string where
  "article_json = os_path_join data_folder ''article_map.json''"

text \<open>
  Lines 276 to 316, the loop over the keys of the seed registry. \<^verbatim>\<open>article_map\<close> is the
  seed registry as loaded, \<^verbatim>\<open>expanded_map\<close> the working copy given to \<^verbatim>\<open>explore_related\<close>.
\<close>

fun seed_loop ::
  "env \<Rightarrow> article_dict \<Rightarrow> string list \<Rightarrow> int \<Rightarrow> bool \<Rightarrow> article_dict \<Rightarrow> world \<Rightarrow> graph_dict
    \<Rightarrow> py_error + (article_dict \<times> world \<times> graph_dict)" where
  "seed_loop e article_map [] depth restart expanded_map w graph = Inr (expanded_map, w, graph)"
| "seed_loop e article_map (article # rest) depth restart expanded_map w graph =
     (case dict_get article_map article of
        Inl err \<Rightarrow> Inl err
      | Inr d \<Rightarrow>
          (let article_path = path d;
               article_link = link d
           in if \<not> os_path_exists w article_path then
                seed_loop e article_map rest depth restart expanded_map
                  (print (''Skipping '' @ article) (print (''Could not find path '' @ article_path) w))
                  graph
              else
                (case explore_related e expanded_map w article article_link True depth restart of
                   Inl err \<Rightarrow> Inl err
                 | Inr (expanded_map1, w1, article_submap, graph_submap) \<Rightarrow>
                     seed_loop e article_map rest depth restart
                       (dict_update expanded_map1 article_submap) w1
                       (merge_graph graph graph_submap))))"

text \<open>
  Lines 271 to 324: the working copy, the graph with an empty list for every seed, the
  loop, and the final collapse of every list of the graph.
\<close>

definition traverse ::
  "env \<Rightarrow> article_dict \<Rightarrow> int \<Rightarrow> bool \<Rightarrow> world \<Rightarrow> py_error + (article_dict \<times> world \<times> graph_dict)" where
  "traverse e article_map depth restart w =
     (let expanded_map = article_map;
          graph = fold (\<lambda>article acc. AList.update article [] acc) (map fst article_map) []
      in case seed_loop e article_map (map fst article_map) depth restart expanded_map w graph of
           Inl err \<Rightarrow> Inl err
         | Inr (expanded_map1, w1, graph1) \<Rightarrow> Inr (expanded_map1, w1, collapse graph1))"

text \<open>
  \<^verbatim>\<open>main\<close> with the two parsed arguments. The result is the world at exit and the exit
  code, or the exception that ended the program.
\<close>

definition main :: "env \<Rightarrow> bool \<Rightarrow> int \<Rightarrow> world \<Rightarrow> py_error + (world \<times> int)" where
  "main e restart depth w =
     (case files w article_json of
        None \<Rightarrow>
          Inr (print ''Please be sure to run download.py before running this script.''
                 (print (''Error: Could not detect required file '' @ article_json) w), 1)
      | Some content \<Rightarrow>
          (let article_map = json_load e content
           in case traverse e article_map depth restart w of
                Inl err \<Rightarrow> Inl err
              | Inr (expanded_map, w1, graph) \<Rightarrow>
                  (let expanded_json = os_path_join data_folder
                         (''expanded_article_map_depth'' @ str_int depth @ ''.json'');
                       graph_json = os_path_join data_folder
                         (''term_article_graph_depth'' @ str_int depth @ ''.json'');
                       w2 = w1\<lparr>files := (files w1)(expanded_json \<mapsto> json_dump_map e expanded_map)\<rparr>;
                       w3 = w2\<lparr>files := (files w2)(graph_json \<mapsto> json_dump_graph e graph)\<rparr>
                   in Inr (w3, 0))))"

section \<open>Notions used to state the properties\<close>

text \<open>The keys of a dictionary, and the set of targets a graph records for an identifier.\<close>

definition keys :: "(string \<times> 'v) list \<Rightarrow> string set" where
  "keys d = fst ` set d"

definition edges :: "graph_dict \<Rightarrow> string \<Rightarrow> string set" where
  "edges g k = (case map_of g k of None \<Rightarrow> {} | Some vs \<Rightarrow> set vs)"

text \<open>The registry entry that lines 70 to 81 build for an identifier seen for the first time.\<close>

definition fresh_entry :: "string \<Rightarrow> string \<Rightarrow> bool \<Rightarrow> article_data" where
  "fresh_entry a u t =
     \<lparr>path = os_path_join (related_articles_folder t) (replace_slash a @ ''.html''), link = u\<rparr>"



text \<open>
  A registry that already holds every identifier that can be reached: every page on disk of
  a registered identifier refers to registered identifiers only.
\<close>

definition registry_closed :: "env \<Rightarrow> article_dict \<Rightarrow> world \<Rightarrow> bool" where
  "registry_closed e am w \<longleftrightarrow>
     (\<forall>(a, d) \<in> set am.
        case files w (path d) of
          None \<Rightarrow> True
        | Some content \<Rightarrow> (\<forall>l \<in> set (outbound_links_of e content). fst l \<in> keys am))"

section \<open>A small world for concrete runs\<close>

text \<open>
  The scenario of the specification: the page of \<open>Bond\<close> is on disk and lists \<open>Yield\<close> twice
  and \<open>Coupon\<close> once. The page of \<open>Yield\<close> refers back to \<open>Bond\<close> (a cycle) and to the
  identifier \<open>A/B\<close>; the page of \<open>Coupon\<close> refers to \<open>A-B\<close> and to \<open>A/B\<close>, two identifiers
  with different pages and the same local file name. Every URL not listed answers 404.
\<close>

definition demo_env :: env where
  "demo_env =
     \<lparr>requests_get = (\<lambda>u. if u = ''uy'' then \<lparr>status_code = 200, text_of = ''Y''\<rparr>
                          else if u = ''uc'' then \<lparr>status_code = 200, text_of = ''C''\<rparr>
                          else if u = ''ua'' then \<lparr>status_code = 200, text_of = ''P''\<rparr>
                          else if u = ''ud'' then \<lparr>status_code = 200, text_of = ''Q''\<rparr>
                          else \<lparr>status_code = 404, text_of = []\<rparr>),
      find_term_tags = (\<lambda>c. if c = ''B'' then [(''Yield'', ''uy''), (''Yield'', ''uy''), (''Coupon'', ''uc'')]
                            else if c = ''Y'' then [(''Bond'', ''ub'')]
                            else if c = ''C'' then [(''A-B'', ''ud''), (''A/B'', ''ua'')]
                            else if c = ''P'' then [(''Par'', ''up'')]
                            else if c = ''Q'' then [(''Quo'', ''uq'')]
                            else []),
      find_article_tags = (\<lambda>c. if c = ''Y'' then [(''A/B'', ''ua'')] else []),
      json_load = (\<lambda>c. if c = ''S'' then [(''Bond'', \<lparr>path = ''Bond.html'', link = ''ub''\<rparr>)] else []),
      json_dump_map = (\<lambda>m. concat (map fst m)),
      json_dump_graph = (\<lambda>g. concat (map fst g))\<rparr>"

definition demo_seed :: article_dict where
  "demo_seed = [(''Bond'', \<lparr>path = ''Bond.html'', link = ''ub''\<rparr>)]"

definition demo_world :: world where
  "demo_world =
     \<lparr>files = [''Bond.html'' \<mapsto> ''B'', ''./graph/article_map.json'' \<mapsto> ''S''],
      requests = [], stdout = [], calls = []\<rparr>"

text \<open>
  A registry that is closed in the world beside it: \<open>Bond\<close> and \<open>Yield\<close> refer to each other,
  and every identifier their pages name is registered, with a page that names nothing.
\<close>

definition demo_full :: article_dict where
  "demo_full =
     [(''Bond'', \<lparr>path = ''Bond.html'', link = ''ub''\<rparr>),
      (''Yield'', \<lparr>path = ''./data/term/Yield.html'', link = ''uy''\<rparr>),
      (''Coupon'', \<lparr>path = ''./data/term/Coupon.html'', link = ''uc''\<rparr>),
      (''A/B'', \<lparr>path = ''./data/term/A-B.html'', link = ''ua''\<rparr>)]"

definition demo_full_world :: world where
  "demo_full_world =
     \<lparr>files = [''Bond.html'' \<mapsto> ''B'', ''./data/term/Yield.html'' \<mapsto> ''Y'',
               ''./data/term/Coupon.html'' \<mapsto> ''Z'', ''./data/term/A-B.html'' \<mapsto> ''Z''],
      requests = [], stdout = [], calls = []\<rparr>"

section \<open>Dictionaries\<close>

lemma keys_update [simp]: "keys (AList.update k v d) = insert k (keys d)"
  by (simp add: keys_def dom_update)

lemma keys_Nil [simp]: "keys [] = {}"
  by (simp add: keys_def)

lemma keys_Cons [simp]: "keys (p # d) = insert (fst p) (keys d)"
  by (simp add: keys_def)

lemma keys_map_of: "k \<in> keys d \<longleftrightarrow> map_of d k \<noteq> None"
  by (simp add: keys_def map_of_eq_None_iff)

lemma dict_update_Nil [simp]: "dict_update d [] = d"
  by (simp add: dict_update_def)

lemma dict_update_Cons [simp]:
  "dict_update d ((k, v) # other) = dict_update (AList.update k v d) other"
  by (simp add: dict_update_def)

lemma keys_dict_update [simp]: "keys (dict_update d other) = keys d \<union> keys other"
  by (induction other arbitrary: d) auto

lemma distinct_dict_update:
  "distinct (map fst d) \<Longrightarrow> distinct (map fst (dict_update d other))"
  by (induction other arbitrary: d) (auto simp: distinct_update)

lemma map_of_dict_update:
  "distinct (map fst other) \<Longrightarrow> map_of (dict_update d other) = map_of d ++ map_of other"
proof (induction other arbitrary: d)
  case Nil
  then show ?case by simp
next
  case (Cons p other)
  obtain k v where p: "p = (k, v)" by (cases p)
  from Cons.prems p have notin: "map_of other k = None" and dist: "distinct (map fst other)"
    by (auto simp: map_of_eq_None_iff)
  have "map_of (dict_update d (p # other)) x = (map_of d ++ map_of (p # other)) x" for x
    using Cons.IH [OF dist, of "AList.update k v d"] p notin
    by (auto simp: map_add_def update_conv' split: option.splits)
  then show ?case by blast
qed

lemma merge_graph_Nil [simp]: "merge_graph g [] = g"
  by (simp add: merge_graph_def)

lemma merge_graph_Cons [simp]:
  "merge_graph g ((k, vs) # s) =
     merge_graph (AList.update k ((case map_of g k of None \<Rightarrow> [] | Some old \<Rightarrow> old) @ vs) g) s"
  by (simp add: merge_graph_def split: option.splits)

lemma keys_merge_graph [simp]: "keys (merge_graph g s) = keys g \<union> keys s"
  by (induction s arbitrary: g) auto

lemma distinct_merge_graph:
  "distinct (map fst g) \<Longrightarrow> distinct (map fst (merge_graph g s))"
  by (induction s arbitrary: g) (auto simp: distinct_update)



lemma update_append_notin:
  "k \<notin> fst ` set ps \<Longrightarrow> AList.update k v (ps @ qs) = ps @ AList.update k v qs"
  by (induction ps) auto

lemma collapse_fold_aux:
  "distinct (map fst xs) \<Longrightarrow> fst ` set pre \<inter> fst ` set xs = {} \<Longrightarrow>
   fold (\<lambda>(key, value) acc. AList.update key (list_set value) acc) xs (pre @ xs) =
     pre @ map (\<lambda>(key, value). (key, list_set value)) xs"
proof (induction xs arbitrary: pre)
  case Nil
  then show ?case by simp
next
  case (Cons p xs)
  obtain k v where p: "p = (k, v)" by (cases p)
  from Cons.prems p have k: "k \<notin> fst ` set pre" by auto
  have step: "AList.update k (list_set v) (pre @ p # xs) = (pre @ [(k, list_set v)]) @ xs"
    using k p by (simp add: update_append_notin)
  have disj: "fst ` set (pre @ [(k, list_set v)]) \<inter> fst ` set xs = {}"
    using Cons.prems p by auto
  from Cons.prems have dist: "distinct (map fst xs)" by simp
  show ?case
    using Cons.IH [OF dist disj] step p by simp
qed

lemma collapse_map:
  "distinct (map fst g) \<Longrightarrow> collapse g = map (\<lambda>(key, value). (key, list_set value)) g"
  using collapse_fold_aux [of g "[]"] by (simp add: collapse_def)

lemma collapse_keys: "distinct (map fst g) \<Longrightarrow> map fst (collapse g) = map fst g"
  by (simp add: collapse_map case_prod_unfold)





section \<open>The steps of explore_related\<close>

lemma dict_get_Inr [simp]: "dict_get d k = Inr v \<longleftrightarrow> map_of d k = Some v"
  by (simp add: dict_get_def split: option.splits)

lemma dict_get_Inl [simp]: "dict_get d k = Inl err \<longleftrightarrow> map_of d k = None"
  by (cases err) (simp add: dict_get_def split: option.splits)

lemma keys_lookup: "k \<in> keys d \<Longrightarrow> \<exists>v. map_of d k = Some v"
  using keys_map_of [of k d] by blast

lemma download_step_unseen:
  "a \<notin> keys am \<Longrightarrow>
   download_step e am w a u t r =
     Inr (AList.update a (fresh_entry a u t) am,
          get_article e u (path (fresh_entry a u t)) w,
          [(a, fresh_entry a u t)])"
  by (simp add: download_step_def Let_def keys_def fresh_entry_def)

lemma download_step_refetch:
  "map_of am a = Some d \<Longrightarrow> r \<Longrightarrow>
   download_step e am w a u t r = Inr (am, get_article e u (path d) w, [])"
  by (simp add: download_step_def Let_def dict_get_def map_of_eq_None_iff [symmetric])

lemma download_step_known:
  "a \<in> keys am \<Longrightarrow> \<not> r \<Longrightarrow> download_step e am w a u t r = Inr (am, w, [])"
  by (simp add: download_step_def Let_def keys_def)

lemma download_step_cases:
  assumes "download_step e am w a u t r = Inr (am1, w1, asub1)"
  obtains
    (unseen) "a \<notin> keys am" "am1 = AList.update a (fresh_entry a u t) am"
      "asub1 = [(a, fresh_entry a u t)]"
      "w1 = get_article e u (path (fresh_entry a u t)) w"
  | (refetch) d where "a \<in> keys am" "r" "map_of am a = Some d" "am1 = am" "asub1 = []"
      "w1 = get_article e u (path d) w"
  | (known) "a \<in> keys am" "\<not> r" "am1 = am" "asub1 = []" "w1 = w"
proof (cases "a \<in> keys am")
  case False
  with assms download_step_unseen [of a am e w u t r] show ?thesis
    by (intro unseen) simp_all
next
  case True
  then obtain d where d: "map_of am a = Some d"
    by (auto simp: keys_map_of)
  show ?thesis
  proof (cases r)
    case True
    with assms d download_step_refetch [of am a d r e w u t] \<open>a \<in> keys am\<close> show ?thesis
      by (intro refetch [of d]) simp_all
  next
    case False
    with assms download_step_known [of a am r e w u t] \<open>a \<in> keys am\<close> show ?thesis
      by (intro known) simp_all
  qed
qed

lemma download_step_returns:
  "\<exists>am1 w1 asub1. download_step e am w a u t r = Inr (am1, w1, asub1)"
  by (auto simp: download_step_def Let_def dict_get_def map_of_eq_None_iff split: option.splits)

lemma download_step_lookup:
  assumes "download_step e am w a u t r = Inr (am1, w1, asub1)"
  shows "\<exists>d. map_of am1 a = Some d"
  using assms
  by (cases rule: download_step_cases) (auto simp: update_conv' dest: keys_lookup)


lemma explore_related_eq:
  assumes "download_step e am (w\<lparr>calls := calls w @ [(a, depth)]\<rparr>) a u t r = Inr (am1, w1, asub1)"
    and "map_of am1 a = Some d"
  shows "explore_related e am w a u t depth r =
     (case files w1 (path d) of
        None \<Rightarrow> Inr (am1, report_missing (path d) a w1, asub1, [])
      | Some content \<Rightarrow>
          (case (if 0 < depth
                 then explore_links e am1 w1 (outbound_links_of e content) depth r asub1
                        (add_own_edges [] a (outbound_links_of e content))
                 else Inr (am1, w1, asub1, add_own_edges [] a (outbound_links_of e content))) of
             Inl err \<Rightarrow> Inl err
           | Inr (am2, w2, asub2, gsub2) \<Rightarrow> Inr (am2, w2, asub2, collapse gsub2)))"
  by (subst explore_related.simps) (simp add: assms dict_get_def Let_def report_missing_def split: option.split)

lemma explore_related_missing:
  assumes "download_step e am (w\<lparr>calls := calls w @ [(a, depth)]\<rparr>) a u t r = Inr (am1, w1, asub1)"
    and "map_of am1 a = Some d" and "files w1 (path d) = None"
  shows "explore_related e am w a u t depth r = Inr (am1, report_missing (path d) a w1, asub1, [])"
  by (simp add: explore_related_eq [OF assms(1,2)] assms(3))

lemma explore_related_leaf:
  assumes "download_step e am (w\<lparr>calls := calls w @ [(a, depth)]\<rparr>) a u t r = Inr (am1, w1, asub1)"
    and "map_of am1 a = Some d" and "files w1 (path d) = Some content" and "\<not> 0 < depth"
  shows "explore_related e am w a u t depth r =
           Inr (am1, w1, asub1, collapse (add_own_edges [] a (outbound_links_of e content)))"
  by (simp add: explore_related_eq [OF assms(1,2)] assms(3,4))

lemma explore_related_node:
  assumes "download_step e am (w\<lparr>calls := calls w @ [(a, depth)]\<rparr>) a u t r = Inr (am1, w1, asub1)"
    and "map_of am1 a = Some d" and "files w1 (path d) = Some content" and "0 < depth"
    and "explore_links e am1 w1 (outbound_links_of e content) depth r asub1
           (add_own_edges [] a (outbound_links_of e content)) = Inr (am2, w2, asub2, gsub2)"
  shows "explore_related e am w a u t depth r = Inr (am2, w2, asub2, collapse gsub2)"
  by (simp add: explore_related_eq [OF assms(1,2)] assms(3,4,5))

lemma explore_related_node_raise:
  assumes "download_step e am (w\<lparr>calls := calls w @ [(a, depth)]\<rparr>) a u t r = Inr (am1, w1, asub1)"
    and "map_of am1 a = Some d" and "files w1 (path d) = Some content" and "0 < depth"
    and "explore_links e am1 w1 (outbound_links_of e content) depth r asub1
           (add_own_edges [] a (outbound_links_of e content)) = Inl err"
  shows "explore_related e am w a u t depth r = Inl err"
  by (simp add: explore_related_eq [OF assms(1,2)] assms(3,4,5))


lemma explore_links_Nil [simp]:
  "explore_links e am w [] depth r asub gsub = Inr (am, w, asub, gsub)"
  by (simp add: explore_links.simps)

lemma explore_links_Cons:
  "explore_links e am w (l # rest) depth r asub gsub =
     (case explore_related e am w (fst l) (fst (snd l)) (snd (snd l)) (depth - 1) r of
        Inl err \<Rightarrow> Inl err
      | Inr (am1, w1, sub, gsub1) \<Rightarrow>
          explore_links e am1 w1 rest depth r (dict_update asub sub) (merge_graph gsub gsub1))"
  by (subst explore_links.simps) (simp add: case_prod_unfold)

lemma explore_links_step:
  assumes "explore_related e am w (fst l) (fst (snd l)) (snd (snd l)) (depth - 1) r = Inr (am1, w1, sub, gsub1)"
  shows "explore_links e am w (l # rest) depth r asub gsub =
           explore_links e am1 w1 rest depth r (dict_update asub sub) (merge_graph gsub gsub1)"
  by (simp add: explore_links_Cons assms)

lemma explore_induct [case_names related nil cons]:
  assumes related: "\<And>e am w a u t depth r.
      (\<And>am1 w1 asub1 d content.
          download_step e am (w\<lparr>calls := calls w @ [(a, depth)]\<rparr>) a u t r = Inr (am1, w1, asub1) \<Longrightarrow>
          map_of am1 a = Some d \<Longrightarrow> files w1 (path d) = Some content \<Longrightarrow> 0 < depth \<Longrightarrow>
          Q e am1 w1 (outbound_links_of e content) depth r asub1
            (add_own_edges [] a (outbound_links_of e content))) \<Longrightarrow>
      P e am w a u t depth r"
    and nil: "\<And>e am w depth r asub gsub. Q e am w [] depth r asub gsub"
    and cons: "\<And>e am w l rest depth r asub gsub.
      P e am w (fst l) (fst (snd l)) (snd (snd l)) (depth - 1) r \<Longrightarrow>
      (\<And>am1 w1 sub gsub1.
          explore_related e am w (fst l) (fst (snd l)) (snd (snd l)) (depth - 1) r = Inr (am1, w1, sub, gsub1) \<Longrightarrow>
          Q e am1 w1 rest depth r (dict_update asub sub) (merge_graph gsub gsub1)) \<Longrightarrow>
      Q e am w (l # rest) depth r asub gsub"
  shows "P e am w a u t depth r" and "Q e am w ls depth r asub gsub"
proof (induction e am w a u t depth r and e am w ls depth r asub gsub
    rule: explore_related_explore_links.induct)
  case (1 e article_map w article article_url is_term depth restart)
  show ?case
  proof (rule related)
    fix am1 w1 asub1 d content
    assume a: "download_step e article_map (w\<lparr>calls := calls w @ [(article, depth)]\<rparr>)
              article article_url is_term restart = Inr (am1, w1, asub1)"
      "map_of am1 article = Some d" "files w1 (path d) = Some content" "0 < depth"
    have dg: "dict_get am1 article = Inr d"
      using a(2) by simp
    show "Q e am1 w1 (outbound_links_of e content) depth restart asub1
            (add_own_edges [] article (outbound_links_of e content))"
      by (rule "1" [OF a(1) refl refl dg a(3) refl refl a(4)])
  qed
next
  case (2 e article_map w depth restart article_submap graph_submap)
  show ?case by (rule nil)
next
  case (3 e article_map w outbound_link rest depth restart article_submap graph_submap)
  have l: "outbound_link = (fst outbound_link, snd outbound_link)"
    "snd outbound_link = (fst (snd outbound_link), snd (snd outbound_link))"
    by simp_all
  show ?case
  proof (rule cons)
    show "P e article_map w (fst outbound_link) (fst (snd outbound_link)) (snd (snd outbound_link))
            (depth - 1) restart"
      by (rule "3"(1) [OF l(1) [symmetric] l(2) [symmetric]])
  next
    fix am1 w1 sub gsub1
    assume er: "explore_related e article_map w (fst outbound_link) (fst (snd outbound_link))
              (snd (snd outbound_link)) (depth - 1) restart = Inr (am1, w1, sub, gsub1)"
    show "Q e am1 w1 rest depth restart (dict_update article_submap sub)
                 (merge_graph graph_submap gsub1)"
      by (rule "3"(2) [OF l(1) [symmetric] l(2) [symmetric] er refl refl refl])
  qed
qed


lemma explore_returns_aux:
  shows "\<exists>res. explore_related e am w a u t depth r = Inr res"
    and "\<exists>res. explore_links e am w ls depth r asub gsub = Inr res"
proof (induction e am w a u t depth r and e am w ls depth r asub gsub rule: explore_induct)
  case (related e am w a u t depth r)
  obtain am1 w1 asub1 where
    ds: "download_step e am (w\<lparr>calls := calls w @ [(a, depth)]\<rparr>) a u t r = Inr (am1, w1, asub1)"
    using download_step_returns by blast
  then obtain d where d: "map_of am1 a = Some d"
    using download_step_lookup by blast
  show ?case
  proof (cases "files w1 (path d)")
    case None
    then show ?thesis
      using explore_related_missing [OF ds d] by simp
  next
    case (Some content)
    show ?thesis
    proof (cases "0 < depth")
      case True
      from related [OF ds d Some True] obtain res where
        "explore_links e am1 w1 (outbound_links_of e content) depth r asub1
            (add_own_edges [] a (outbound_links_of e content)) = Inr res" by blast
      then show ?thesis
        using explore_related_node [OF ds d Some True] by (cases res) auto
    next
      case False
      then show ?thesis
        using explore_related_leaf [OF ds d Some] by simp
    qed
  qed
next
  case (nil e am w depth r asub gsub)
  then show ?case by simp
next
  case (cons e am w l rest depth r asub gsub)
  from cons(1) obtain res where
    "explore_related e am w (fst l) (fst (snd l)) (snd (snd l)) (depth - 1) r = Inr res"
    by blast
  then obtain am1 w1 sub gsub1 where
    er: "explore_related e am w (fst l) (fst (snd l)) (snd (snd l)) (depth - 1) r = Inr (am1, w1, sub, gsub1)"
    by (cases res) auto
  from cons(2) [OF er] show ?case
    by (simp add: explore_links_step [OF er])
qed

lemma explore_related_cases [consumes 1, case_names missing leaf node]:
  assumes res: "explore_related e am w a u t depth r = Inr (am', w', asub', gsub')"
  obtains
    (missing) w1 d where
      "download_step e am (w\<lparr>calls := calls w @ [(a, depth)]\<rparr>) a u t r = Inr (am', w1, asub')"
      "map_of am' a = Some d" "files w1 (path d) = None"
      "w' = report_missing (path d) a w1" "gsub' = []"
  | (leaf) d content where
      "download_step e am (w\<lparr>calls := calls w @ [(a, depth)]\<rparr>) a u t r = Inr (am', w', asub')"
      "map_of am' a = Some d" "files w' (path d) = Some content" "\<not> 0 < depth"
      "gsub' = collapse (add_own_edges [] a (outbound_links_of e content))"
  | (node) am1 w1 asub1 d content gsub2 where
      "download_step e am (w\<lparr>calls := calls w @ [(a, depth)]\<rparr>) a u t r = Inr (am1, w1, asub1)"
      "map_of am1 a = Some d" "files w1 (path d) = Some content" "0 < depth"
      "explore_links e am1 w1 (outbound_links_of e content) depth r asub1
         (add_own_edges [] a (outbound_links_of e content)) = Inr (am', w', asub', gsub2)"
      "gsub' = collapse gsub2"
proof -
  obtain am1 w1 asub1 where
    ds: "download_step e am (w\<lparr>calls := calls w @ [(a, depth)]\<rparr>) a u t r = Inr (am1, w1, asub1)"
    using download_step_returns by blast
  then obtain d where d: "map_of am1 a = Some d"
    using download_step_lookup by blast
  show ?thesis
  proof (cases "files w1 (path d)")
    case None
    from res explore_related_missing [OF ds d None]
    have "am' = am1" "w' = report_missing (path d) a w1" "asub' = asub1" "gsub' = []"
      by simp_all
    with ds d None show ?thesis
      by (intro missing [of w1 d]) simp_all
  next
    case (Some content)
    show ?thesis
    proof (cases "0 < depth")
      case False
      from res explore_related_leaf [OF ds d Some False]
      have "am' = am1" "w' = w1" "asub' = asub1"
        "gsub' = collapse (add_own_edges [] a (outbound_links_of e content))"
        by simp_all
      with ds d Some False show ?thesis
        by (intro leaf [of d content]) simp_all
    next
      case True
      obtain lres where "explore_links e am1 w1 (outbound_links_of e content) depth r asub1
           (add_own_edges [] a (outbound_links_of e content)) = Inr lres"
        using explore_returns_aux(2) by blast
      then obtain am2 w2 asub2 gsub2 where
        el: "explore_links e am1 w1 (outbound_links_of e content) depth r asub1
           (add_own_edges [] a (outbound_links_of e content)) = Inr (am2, w2, asub2, gsub2)"
        by (cases lres) auto
      from res explore_related_node [OF ds d Some True el]
      have "am' = am2" "w' = w2" "asub' = asub2" "gsub' = collapse gsub2"
        by simp_all
      with ds d Some True el show ?thesis
        by (intro node [of am1 w1 asub1 d content gsub2]) simp_all
    qed
  qed
qed

lemma explore_links_cases [consumes 1]:
  assumes res: "explore_links e am w (l # rest) depth r asub gsub = Inr (am', w', asub', gsub')"
  obtains am1 w1 sub gsub1 where
    "explore_related e am w (fst l) (fst (snd l)) (snd (snd l)) (depth - 1) r = Inr (am1, w1, sub, gsub1)"
    "explore_links e am1 w1 rest depth r (dict_update asub sub) (merge_graph gsub gsub1)
       = Inr (am', w', asub', gsub')"
proof -
  obtain res1 where "explore_related e am w (fst l) (fst (snd l)) (snd (snd l)) (depth - 1) r = Inr res1"
    using explore_returns_aux(1) by blast
  then obtain am1 w1 sub gsub1 where
    er: "explore_related e am w (fst l) (fst (snd l)) (snd (snd l)) (depth - 1) r = Inr (am1, w1, sub, gsub1)"
    by (cases res1) auto
  with res explore_links_step [OF er, of rest asub gsub] show ?thesis
    by (intro that [of am1 w1 sub gsub1]) simp_all
qed

section \<open>Invariants of the traversal\<close>

lemma add_own_edges_Nil [simp]: "add_own_edges [] a ls = [(a, map fst ls)]"
  by (simp add: add_own_edges_def)

lemma keys_dom: "keys d = dom (map_of d)"
  by (simp add: keys_def dom_map_of_conv_image_fst)

lemma map_le_keys: "map_of d \<subseteq>\<^sub>m map_of d' \<Longrightarrow> keys d \<subseteq> keys d'"
  by (simp add: keys_dom map_le_implies_dom_le)

lemma map_le_update_new: "k \<notin> keys d \<Longrightarrow> map_of d \<subseteq>\<^sub>m map_of (AList.update k v d)"
  by (auto simp: update_conv' map_le_def keys_dom)

lemma download_step_inv:
  assumes "download_step e am w a u t r = Inr (am1, w1, asub1)"
  shows "distinct (map fst asub1) \<and> map_of am \<subseteq>\<^sub>m map_of am1 \<and>
      map_of asub1 \<subseteq>\<^sub>m map_of am1 \<and> keys asub1 = keys am1 - keys am \<and>
      (distinct (map fst am) \<longrightarrow> distinct (map fst am1))"
  using assms
proof (cases rule: download_step_cases)
  case unseen
  have "map_of asub1 \<subseteq>\<^sub>m map_of am1"
    unfolding unseen(2,3) by (simp add: update_conv' map_le_def)
  moreover have "map_of am \<subseteq>\<^sub>m map_of am1"
    unfolding unseen(2) using unseen(1) by (rule map_le_update_new)
  moreover have "keys asub1 = keys am1 - keys am"
    unfolding unseen(2,3) using unseen(1) by auto
  moreover have "distinct (map fst am) \<longrightarrow> distinct (map fst am1)"
    unfolding unseen(2) by (simp add: distinct_update)
  moreover have "distinct (map fst asub1)"
    unfolding unseen(3) by simp
  ultimately show ?thesis by blast
next
  case (refetch d)
  then show ?thesis by simp
next
  case known
  then show ?thesis by simp
qed

lemma explore_registry_inv:
  shows "explore_related e am w a u t depth r = Inr (am', w', asub', gsub') \<Longrightarrow>
           distinct (map fst asub') \<and> distinct (map fst gsub') \<and>
           map_of am \<subseteq>\<^sub>m map_of am' \<and> map_of asub' \<subseteq>\<^sub>m map_of am' \<and>
           keys asub' = keys am' - keys am \<and>
           (distinct (map fst am) \<longrightarrow> distinct (map fst am'))"
    and "explore_links e am w ls depth r asub gsub = Inr (am', w', asub', gsub') \<Longrightarrow>
           distinct (map fst asub) \<Longrightarrow> distinct (map fst gsub) \<Longrightarrow>
           map_of asub \<subseteq>\<^sub>m map_of am \<Longrightarrow>
           distinct (map fst asub') \<and> distinct (map fst gsub') \<and>
           map_of am \<subseteq>\<^sub>m map_of am' \<and> map_of asub' \<subseteq>\<^sub>m map_of am' \<and>
           keys asub' = keys asub \<union> (keys am' - keys am) \<and>
           (distinct (map fst am) \<longrightarrow> distinct (map fst am'))"
proof (induction e am w a u t depth r and e am w ls depth r asub gsub
    arbitrary: am' w' asub' gsub' and am' w' asub' gsub' rule: explore_induct)
  case (related e am w a u t depth r)
  from related.prems show ?case
  proof (cases rule: explore_related_cases)
    case (missing w1 d)
    from download_step_inv [OF missing(1)] missing(5) show ?thesis by simp
  next
    case (leaf d content)
    from download_step_inv [OF leaf(1)] leaf(5) show ?thesis
      by (simp add: collapse_keys)
  next
    case (node am1 w1 asub1 d content gsub2)
    note ds = download_step_inv [OF node(1)]
    have ih: "distinct (map fst asub') \<and> distinct (map fst gsub2) \<and>
           map_of am1 \<subseteq>\<^sub>m map_of am' \<and> map_of asub' \<subseteq>\<^sub>m map_of am' \<and>
           keys asub' = keys asub1 \<union> (keys am' - keys am1) \<and>
           (distinct (map fst am1) \<longrightarrow> distinct (map fst am'))"
      using related.IH [OF node(1,2,3,4,5)] ds by simp
    have le: "map_of am \<subseteq>\<^sub>m map_of am'"
      using ds ih map_le_trans by blast
    have k1: "keys am \<subseteq> keys am1" and k2: "keys am1 \<subseteq> keys am'"
      using ds ih by (simp_all add: map_le_keys)
    have "keys asub' = keys am' - keys am"
      using ds ih k1 k2 by auto
    moreover have "distinct (map fst gsub')"
      using ih node(6) by (simp add: collapse_keys)
    ultimately show ?thesis
      using ih le ds by simp
  qed
next
  case (nil e am w depth r asub gsub)
  then show ?case by auto
next
  case (cons e am w l rest depth r asub gsub)
  from cons.prems(1) show ?case
  proof (cases rule: explore_links_cases)
    case (1 am1 w1 sub gsub1)
    have p: "distinct (map fst sub) \<and> distinct (map fst gsub1) \<and>
           map_of am \<subseteq>\<^sub>m map_of am1 \<and> map_of sub \<subseteq>\<^sub>m map_of am1 \<and>
           keys sub = keys am1 - keys am \<and>
           (distinct (map fst am) \<longrightarrow> distinct (map fst am1))"
      by (rule cons.IH(1) [OF 1(1)])
    have d1: "distinct (map fst (dict_update asub sub))"
      using cons.prems(2) by (rule distinct_dict_update)
    have d2: "distinct (map fst (merge_graph gsub gsub1))"
      using cons.prems(3) by (rule distinct_merge_graph)
    have "map_of asub \<subseteq>\<^sub>m map_of am1"
      using cons.prems(4) p map_le_trans by blast
    then have le: "map_of (dict_update asub sub) \<subseteq>\<^sub>m map_of am1"
      using p by (simp add: map_of_dict_update map_add_le_mapI)
    have q: "distinct (map fst asub') \<and> distinct (map fst gsub') \<and>
           map_of am1 \<subseteq>\<^sub>m map_of am' \<and> map_of asub' \<subseteq>\<^sub>m map_of am' \<and>
           keys asub' = keys (dict_update asub sub) \<union> (keys am' - keys am1) \<and>
           (distinct (map fst am1) \<longrightarrow> distinct (map fst am'))"
      by (rule cons.IH(2) [OF 1(1) 1(2) d1 d2 le])
    have le': "map_of am \<subseteq>\<^sub>m map_of am'"
      using p q map_le_trans by blast
    have k1: "keys am \<subseteq> keys am1" and k2: "keys am1 \<subseteq> keys am'"
      using p q by (simp_all add: map_le_keys)
    have "keys asub' = keys asub \<union> (keys am' - keys am)"
      using p q k1 k2 by auto
    then show ?thesis
      using p q le' by simp
  qed
qed

section \<open>The destination path of a new identifier\<close>

lemma replace_slash_no_slash: "CHR ''/'' \<notin> set (replace_slash s)"
  by (auto simp: replace_slash_def)

lemma hd_cleaned: "hd (replace_slash a @ ''.html'') \<noteq> CHR ''/''"
proof (cases a)
  case Nil
  then show ?thesis by (simp add: replace_slash_def)
next
  case (Cons c cs)
  then have "hd (replace_slash a @ ''.html'') \<in> set (replace_slash a)"
    by (simp add: replace_slash_def)
  then show ?thesis
    using replace_slash_no_slash [of a] by metis
qed

lemma os_path_join_folder:
  "os_path_join (related_articles_folder t) (replace_slash a @ ''.html'') =
     related_articles_folder t @ replace_slash a @ ''.html''"
  using hd_cleaned [of a] by (simp add: os_path_join_def related_articles_folder_def)

lemma path_fresh_entry:
  "path (fresh_entry a u t) = related_articles_folder t @ replace_slash a @ ''.html''"
  by (simp add: fresh_entry_def os_path_join_folder)



section \<open>Concrete runs\<close>

lemmas run_simps =
  explore_related.simps explore_links.simps download_step_def get_article_def dict_get_def
  demo_env_def demo_seed_def demo_world_def outbound_links_of_def add_own_edges_def
  merge_graph_def collapse_def list_set_def dict_update_def report_missing_def print_def
  os_path_join_def related_articles_folder_def replace_slash_def Let_def

lemma str_int_404: "str_int 404 = ''404''"
  by (simp add: str_int_def)

lemma demo_run_depth1:
  "explore_related demo_env demo_seed demo_world ''Bond'' ''ub'' True 1 False =
     Inr ([(''Bond'', \<lparr>path = ''Bond.html'', link = ''ub''\<rparr>),
           (''Yield'', \<lparr>path = ''./data/term/Yield.html'', link = ''uy''\<rparr>),
           (''Coupon'', \<lparr>path = ''./data/term/Coupon.html'', link = ''uc''\<rparr>)],
          \<lparr>files = [''Bond.html'' \<mapsto> ''B'', ''./graph/article_map.json'' \<mapsto> ''S'',
                    ''./data/term/Yield.html'' \<mapsto> ''Y'', ''./data/term/Coupon.html'' \<mapsto> ''C''],
           requests = [''uy'', ''uc''], stdout = [],
           calls = [(''Bond'', 1), (''Yield'', 0), (''Yield'', 0), (''Coupon'', 0)]\<rparr>,
          [(''Yield'', \<lparr>path = ''./data/term/Yield.html'', link = ''uy''\<rparr>),
           (''Coupon'', \<lparr>path = ''./data/term/Coupon.html'', link = ''uc''\<rparr>)],
          [(''Bond'', [''Yield'', ''Coupon'']), (''Yield'', [''Bond'', ''A/B'']),
           (''Coupon'', [''A-B'', ''A/B''])])"
  by (simp add: run_simps)

lemma demo_run_refetch:
  "explore_related demo_env demo_seed demo_world ''Bond'' ''ux'' True 0 True =
     Inr ([(''Bond'', \<lparr>path = ''Bond.html'', link = ''ub''\<rparr>)],
          \<lparr>files = [''Bond.html'' \<mapsto> ''B'', ''./graph/article_map.json'' \<mapsto> ''S''],
           requests = [''ux''], stdout = [''Request returned 404 status code for ux''],
           calls = [(''Bond'', 0)]\<rparr>,
          [], [(''Bond'', [''Yield'', ''Coupon''])])"
  by (simp add: run_simps str_int_404)

lemma demo_run_missing:
  "explore_related demo_env demo_seed demo_world ''Zed'' ''uz'' True 1 False =
     Inr ([(''Bond'', \<lparr>path = ''Bond.html'', link = ''ub''\<rparr>),
           (''Zed'', \<lparr>path = ''./data/term/Zed.html'', link = ''uz''\<rparr>)],
          \<lparr>files = [''Bond.html'' \<mapsto> ''B'', ''./graph/article_map.json'' \<mapsto> ''S''],
           requests = [''uz''],
           stdout = [''Request returned 404 status code for uz'',
             ''Error: Did not detect local file ./data/term/Zed.html for Zed'',
             ''Please make sure download.py has been run to completion before running this script.''],
           calls = [(''Zed'', 1)]\<rparr>,
          [(''Zed'', \<lparr>path = ''./data/term/Zed.html'', link = ''uz''\<rparr>)], [])"
  by (simp add: run_simps str_int_404)

lemma calls_get_article [simp]: "calls (get_article e u p w) = calls w"
  by (simp add: get_article_def Let_def print_def)

lemma calls_print [simp]: "calls (print s w) = calls w"
  by (simp add: print_def)

lemma stdout_print [simp]: "stdout (print s w) = stdout w @ [s]"
  by (simp add: print_def)

lemma files_print [simp]: "files (print s w) = files w"
  by (simp add: print_def)

lemma requests_print [simp]: "requests (print s w) = requests w"
  by (simp add: print_def)

lemma download_step_calls:
  assumes "download_step e am w a u t r = Inr (am1, w1, asub1)"
  shows "calls w1 = calls w"
  using assms by (cases rule: download_step_cases) simp_all

section \<open>The registry delta and the shared registry\<close>

text \<open>
  C9. Every pair of identifier and record in the registry delta that an invocation of
  \<^verbatim>\<open>explore_related\<close> returns is in the shared registry, with the same record, when the
  invocation returns.
\<close>

theorem registry_delta_in_registry:
  assumes "explore_related e article_map w article article_url is_term depth restart =
             Inr (article_map', w', article_submap, graph_submap)"
    and "(k, v) \<in> set article_submap"
  shows "map_of article_map' k = Some v"
proof -
  note inv = explore_registry_inv(1) [OF assms(1)]
  from inv assms(2) have "map_of article_submap k = Some v"
    by simp
  with inv show ?thesis
    by (auto simp: map_le_def dom_def)
qed

theorem registry_delta_in_registry_witness:
  "explore_related demo_env demo_seed demo_world ''Bond'' ''ub'' True 1 False =
     Inr ([(''Bond'', \<lparr>path = ''Bond.html'', link = ''ub''\<rparr>),
           (''Yield'', \<lparr>path = ''./data/term/Yield.html'', link = ''uy''\<rparr>),
           (''Coupon'', \<lparr>path = ''./data/term/Coupon.html'', link = ''uc''\<rparr>)],
          \<lparr>files = [''Bond.html'' \<mapsto> ''B'', ''./graph/article_map.json'' \<mapsto> ''S'',
                    ''./data/term/Yield.html'' \<mapsto> ''Y'', ''./data/term/Coupon.html'' \<mapsto> ''C''],
           requests = [''uy'', ''uc''], stdout = [],
           calls = [(''Bond'', 1), (''Yield'', 0), (''Yield'', 0), (''Coupon'', 0)]\<rparr>,
          [(''Yield'', \<lparr>path = ''./data/term/Yield.html'', link = ''uy''\<rparr>),
           (''Coupon'', \<lparr>path = ''./data/term/Coupon.html'', link = ''uc''\<rparr>)],
          [(''Bond'', [''Yield'', ''Coupon'']), (''Yield'', [''Bond'', ''A/B'']),
           (''Coupon'', [''A-B'', ''A/B''])]) \<and>
   (''Coupon'', \<lparr>path = ''./data/term/Coupon.html'', link = ''uc''\<rparr>) \<in>
     set [(''Yield'', \<lparr>path = ''./data/term/Yield.html'', link = ''uy''\<rparr>),
          (''Coupon'', \<lparr>path = ''./data/term/Coupon.html'', link = ''uc''\<rparr>)] \<and>
   map_of [(''Bond'', \<lparr>path = ''Bond.html'', link = ''ub''\<rparr>),
           (''Yield'', \<lparr>path = ''./data/term/Yield.html'', link = ''uy''\<rparr>),
           (''Coupon'', \<lparr>path = ''./data/term/Coupon.html'', link = ''uc''\<rparr>)] ''Coupon'' =
     Some \<lparr>path = ''./data/term/Coupon.html'', link = ''uc''\<rparr>"
  using registry_delta_in_registry [OF demo_run_depth1,
      of "''Coupon''" "\<lparr>path = ''./data/term/Coupon.html'', link = ''uc''\<rparr>"] demo_run_depth1
  by simp

section \<open>A forced re-fetch of a known identifier\<close>

text \<open>
  C6 as stated fails. \<open>Bond\<close> is in the registry with the link \<open>ub\<close>; the invocation with
  \<^verbatim>\<open>restart\<close> set and the URL \<open>ux\<close> requests \<open>ux\<close>, leaves the registry entry as it was
  and returns an empty registry delta.
\<close>

theorem restart_known_counterexample:
  "''Bond'' \<in> keys demo_seed \<and>
   explore_related demo_env demo_seed demo_world ''Bond'' ''ux'' True 0 True =
     Inr ([(''Bond'', \<lparr>path = ''Bond.html'', link = ''ub''\<rparr>)],
          \<lparr>files = [''Bond.html'' \<mapsto> ''B'', ''./graph/article_map.json'' \<mapsto> ''S''],
           requests = [''ux''], stdout = [''Request returned 404 status code for ux''],
           calls = [(''Bond'', 0)]\<rparr>,
          [], [(''Bond'', [''Yield'', ''Coupon''])])"
  using demo_run_refetch by (simp add: demo_seed_def)

text \<open>
  C6, amended. When \<^verbatim>\<open>restart\<close> is set and the identifier is already in the registry, the
  download step fetches the page again to the recorded path and changes neither the
  registry nor the delta; on return the registry entry of the identifier is the one it
  had before, and the identifier is not a key of the returned registry delta.
\<close>

theorem restart_known_entry_kept:
  assumes "map_of article_map article = Some d"
    and "restart"
    and "explore_related e article_map w article article_url is_term depth restart =
             Inr (article_map', w', article_submap, graph_submap)"
  shows "map_of article_map' article = Some d \<and> article \<notin> keys article_submap \<and>
         download_step e article_map w article article_url is_term restart =
           Inr (article_map, get_article e article_url (path d) w, [])"
proof -
  note inv = explore_registry_inv(1) [OF assms(3)]
  have k: "article \<in> keys article_map"
    using assms(1) by (simp add: keys_map_of)
  have "map_of article_map' article = Some d"
    using inv assms(1) by (auto simp: map_le_def dom_def)
  moreover have "article \<notin> keys article_submap"
    using inv k by simp
  ultimately show ?thesis
    using download_step_refetch [OF assms(1,2)] by simp
qed

theorem restart_known_entry_kept_witness:
  "map_of demo_seed ''Bond'' = Some \<lparr>path = ''Bond.html'', link = ''ub''\<rparr> \<and> True \<and>
   explore_related demo_env demo_seed demo_world ''Bond'' ''ux'' True 0 True =
     Inr (demo_seed,
          \<lparr>files = [''Bond.html'' \<mapsto> ''B'', ''./graph/article_map.json'' \<mapsto> ''S''],
           requests = [''ux''], stdout = [''Request returned 404 status code for ux''],
           calls = [(''Bond'', 0)]\<rparr>,
          [], [(''Bond'', [''Yield'', ''Coupon''])]) \<and>
   map_of demo_seed ''Bond'' = Some \<lparr>path = ''Bond.html'', link = ''ub''\<rparr> \<and>
   ''Bond'' \<notin> keys ([] :: article_dict) \<and>
   download_step demo_env demo_seed demo_world ''Bond'' ''ux'' True True =
     Inr (demo_seed, get_article demo_env ''ux'' ''Bond.html'' demo_world, [])"
proof -
  have a: "map_of demo_seed ''Bond'' = Some \<lparr>path = ''Bond.html'', link = ''ub''\<rparr>"
    by (simp add: demo_seed_def)
  have b: "explore_related demo_env demo_seed demo_world ''Bond'' ''ux'' True 0 True =
     Inr (demo_seed,
          \<lparr>files = [''Bond.html'' \<mapsto> ''B'', ''./graph/article_map.json'' \<mapsto> ''S''],
           requests = [''ux''], stdout = [''Request returned 404 status code for ux''],
           calls = [(''Bond'', 0)]\<rparr>,
          [], [(''Bond'', [''Yield'', ''Coupon''])])"
    using demo_run_refetch by (simp add: demo_seed_def)
  show ?thesis
    using restart_known_entry_kept [OF a TrueI b] a b by simp
qed

section \<open>Missing local content\<close>

text \<open>
  C2 as stated fails. \<open>Zed\<close> is not in the registry and its URL answers 404, so its local
  file is missing after the download step; the invocation prints the two lines and returns
  an empty graph delta, but the returned registry delta holds the entry of \<open>Zed\<close>.
\<close>

theorem missing_content_counterexample:
  "''Zed'' \<notin> keys demo_seed \<and>
   explore_related demo_env demo_seed demo_world ''Zed'' ''uz'' True 1 False =
     Inr ([(''Bond'', \<lparr>path = ''Bond.html'', link = ''ub''\<rparr>),
           (''Zed'', \<lparr>path = ''./data/term/Zed.html'', link = ''uz''\<rparr>)],
          \<lparr>files = [''Bond.html'' \<mapsto> ''B'', ''./graph/article_map.json'' \<mapsto> ''S''],
           requests = [''uz''],
           stdout = [''Request returned 404 status code for uz'',
             ''Error: Did not detect local file ./data/term/Zed.html for Zed'',
             ''Please make sure download.py has been run to completion before running this script.''],
           calls = [(''Zed'', 1)]\<rparr>,
          [(''Zed'', \<lparr>path = ''./data/term/Zed.html'', link = ''uz''\<rparr>)], []) \<and>
   [(''Zed'', \<lparr>path = ''./data/term/Zed.html'', link = ''uz''\<rparr>)] \<noteq> []"
  using demo_run_missing by (simp add: demo_seed_def)

text \<open>
  C2, amended. When the local file of the identifier is missing after the download step,
  the invocation returns at once: the graph delta is empty, the registry delta is what the
  download step made of it (empty when the identifier was already in the registry, the
  entry of the identifier alone otherwise), the two lines are printed, and no further
  invocation is made (the history of invocations grows by this one only).
\<close>

theorem missing_content_skip:
  assumes "download_step e article_map (w\<lparr>calls := calls w @ [(article, depth)]\<rparr>)
             article article_url is_term restart = Inr (article_map1, w1, article_submap)"
    and "map_of article_map1 article = Some d"
    and "files w1 (path d) = None"
  shows "explore_related e article_map w article article_url is_term depth restart =
           Inr (article_map1, report_missing (path d) article w1, article_submap, []) \<and>
         article_submap =
           (if article \<in> keys article_map then [] else [(article, fresh_entry article article_url is_term)]) \<and>
         stdout (report_missing (path d) article w1) =
           stdout w1 @ [''Error: Did not detect local file '' @ path d @ '' for '' @ article,
             ''Please make sure download.py has been run to completion before running this script.''] \<and>
         calls (report_missing (path d) article w1) = calls w @ [(article, depth)]"
proof -
  have "article_submap =
      (if article \<in> keys article_map then [] else [(article, fresh_entry article article_url is_term)])"
    using assms(1) by (cases rule: download_step_cases) simp_all
  moreover have "calls w1 = calls w @ [(article, depth)]"
    using download_step_calls [OF assms(1)] by simp
  ultimately show ?thesis
    using explore_related_missing [OF assms] by (simp add: report_missing_def)
qed

lemma demo_download_missing:
  "download_step demo_env demo_seed (demo_world\<lparr>calls := calls demo_world @ [(''Zed'', 1)]\<rparr>)
     ''Zed'' ''uz'' True False =
   Inr ([(''Bond'', \<lparr>path = ''Bond.html'', link = ''ub''\<rparr>),
         (''Zed'', \<lparr>path = ''./data/term/Zed.html'', link = ''uz''\<rparr>)],
        \<lparr>files = [''Bond.html'' \<mapsto> ''B'', ''./graph/article_map.json'' \<mapsto> ''S''],
         requests = [''uz''], stdout = [''Request returned 404 status code for uz''],
         calls = [(''Zed'', 1)]\<rparr>,
        [(''Zed'', \<lparr>path = ''./data/term/Zed.html'', link = ''uz''\<rparr>)])"
  by (simp add: run_simps str_int_404)

theorem missing_content_skip_witness:
  "explore_related demo_env demo_seed demo_world ''Zed'' ''uz'' True 1 False =
     Inr ([(''Bond'', \<lparr>path = ''Bond.html'', link = ''ub''\<rparr>),
           (''Zed'', \<lparr>path = ''./data/term/Zed.html'', link = ''uz''\<rparr>)],
          report_missing ''./data/term/Zed.html'' ''Zed''
            \<lparr>files = [''Bond.html'' \<mapsto> ''B'', ''./graph/article_map.json'' \<mapsto> ''S''],
             requests = [''uz''], stdout = [''Request returned 404 status code for uz''],
             calls = [(''Zed'', 1)]\<rparr>,
          [(''Zed'', \<lparr>path = ''./data/term/Zed.html'', link = ''uz''\<rparr>)], []) \<and>
   calls (report_missing ''./data/term/Zed.html'' ''Zed''
            \<lparr>files = [''Bond.html'' \<mapsto> ''B'', ''./graph/article_map.json'' \<mapsto> ''S''],
             requests = [''uz''], stdout = [''Request returned 404 status code for uz''],
             calls = [(''Zed'', 1)]\<rparr>) = [(''Zed'', 1)]"
  using missing_content_skip [OF demo_download_missing, of "\<lparr>path = ''./data/term/Zed.html'', link = ''uz''\<rparr>"]
  by (simp add: demo_world_def)

section \<open>Deduplicated edge lists\<close>






section \<open>Bounded recursion\<close>

lemma calls_report_missing [simp]: "calls (report_missing p a w) = calls w"
  by (simp add: report_missing_def)

lemma explore_calls_inv:
  shows "explore_related e am w a u t depth r = Inr (am', w', asub', gsub') \<Longrightarrow>
           \<exists>cs. calls w' = calls w @ (a, depth) # cs \<and>
                (\<forall>(b, d') \<in> set cs. 0 \<le> d' \<and> d' < depth)"
    and "explore_links e am w ls depth r asub gsub = Inr (am', w', asub', gsub') \<Longrightarrow>
           \<exists>cs. calls w' = calls w @ cs \<and>
                (\<forall>(b, d') \<in> set cs. d' < depth \<and> (0 < depth \<longrightarrow> 0 \<le> d'))"
proof (induction e am w a u t depth r and e am w ls depth r asub gsub
    arbitrary: am' w' asub' gsub' and am' w' asub' gsub' rule: explore_induct)
  case (related e am w a u t depth r)
  from related.prems show ?case
  proof (cases rule: explore_related_cases)
    case (missing w1 d)
    have "calls w' = calls w @ (a, depth) # []"
      using download_step_calls [OF missing(1)] missing(4) by simp
    then show ?thesis by force
  next
    case (leaf d content)
    have "calls w' = calls w @ (a, depth) # []"
      using download_step_calls [OF leaf(1)] by simp
    then show ?thesis by force
  next
    case (node am1 w1 asub1 d content gsub2)
    from related.IH [OF node(1,2,3,4,5)] obtain cs where
      cs: "calls w' = calls w1 @ cs" "\<forall>(b, d') \<in> set cs. d' < depth \<and> (0 < depth \<longrightarrow> 0 \<le> d')"
      by blast
    have "calls w' = calls w @ (a, depth) # cs"
      using download_step_calls [OF node(1)] cs(1) by simp
    moreover have "\<forall>(b, d') \<in> set cs. 0 \<le> d' \<and> d' < depth"
      using cs(2) node(4) by auto
    ultimately show ?thesis by blast
  qed
next
  case (nil e am w depth r asub gsub)
  then show ?case by simp
next
  case (cons e am w l rest depth r asub gsub)
  from cons.prems(1) show ?case
  proof (cases rule: explore_links_cases)
    case (1 am1 w1 sub gsub1)
    from cons.IH(1) [OF 1(1)] obtain cs1 where
      cs1: "calls w1 = calls w @ (fst l, depth - 1) # cs1"
        "\<forall>(b, d') \<in> set cs1. 0 \<le> d' \<and> d' < depth - 1"
      by blast
    from cons.IH(2) [OF 1(1) 1(2)] obtain cs2 where
      cs2: "calls w' = calls w1 @ cs2"
        "\<forall>(b, d') \<in> set cs2. d' < depth \<and> (0 < depth \<longrightarrow> 0 \<le> d')"
      by blast
    have "calls w' = calls w @ ((fst l, depth - 1) # cs1 @ cs2)"
      using cs1(1) cs2(1) by simp
    moreover have "\<forall>(b, d') \<in> set ((fst l, depth - 1) # cs1 @ cs2).
        d' < depth \<and> (0 < depth \<longrightarrow> 0 \<le> d')"
      using cs1(2) cs2(2) by auto
    ultimately show ?thesis by blast
  qed
qed

text \<open>
  C4. For every depth that is not negative and every registry, world and environment
  (so for every reference graph, cyclic or not), \<^verbatim>\<open>explore_related\<close> returns a result, and
  every invocation nested in it has a depth argument that is at least 0 and below the
  initial depth. The function is defined by recursion on a measure of the depth
  argument, which the guard \<open>0 < depth\<close> and the argument \<open>depth - 1\<close> of the recursive call
  make decrease.
\<close>

theorem depth_bounded_recursion:
  assumes "0 \<le> depth"
  shows "\<exists>article_map' w' article_submap graph_submap cs.
           explore_related e article_map w article article_url is_term depth restart =
             Inr (article_map', w', article_submap, graph_submap) \<and>
           calls w' = calls w @ (article, depth) # cs \<and>
           (\<forall>(b, d') \<in> set cs. 0 \<le> d' \<and> d' < depth)"
proof -
  obtain res where "explore_related e article_map w article article_url is_term depth restart = Inr res"
    using explore_returns_aux(1) by blast
  then obtain am' w' asub' gsub' where
    res: "explore_related e article_map w article article_url is_term depth restart =
            Inr (am', w', asub', gsub')"
    by (cases res) auto
  from explore_calls_inv(1) [OF res] show ?thesis
    using res by blast
qed

lemma demo_run_depth2:
  "explore_related demo_env demo_seed demo_world ''Bond'' ''ub'' True 2 False =
     Inr ([(''Bond'', \<lparr>path = ''Bond.html'', link = ''ub''\<rparr>),
           (''Yield'', \<lparr>path = ''./data/term/Yield.html'', link = ''uy''\<rparr>),
           (''A/B'', \<lparr>path = ''./data/term/A-B.html'', link = ''ua''\<rparr>),
           (''Coupon'', \<lparr>path = ''./data/term/Coupon.html'', link = ''uc''\<rparr>),
           (''A-B'', \<lparr>path = ''./data/term/A-B.html'', link = ''ud''\<rparr>)],
          \<lparr>files = [''Bond.html'' \<mapsto> ''B'', ''./graph/article_map.json'' \<mapsto> ''S'',
                    ''./data/term/Yield.html'' \<mapsto> ''Y'', ''./data/term/A-B.html'' \<mapsto> ''P'',
                    ''./data/term/Coupon.html'' \<mapsto> ''C'', ''./data/term/A-B.html'' \<mapsto> ''Q''],
           requests = [''uy'', ''ua'', ''uc'', ''ud''], stdout = [],
           calls = [(''Bond'', 2), (''Yield'', 1), (''Bond'', 0), (''A/B'', 0),
                    (''Yield'', 1), (''Bond'', 0), (''A/B'', 0), (''Coupon'', 1),
                    (''A-B'', 0), (''A/B'', 0)]\<rparr>,
          [(''Yield'', \<lparr>path = ''./data/term/Yield.html'', link = ''uy''\<rparr>),
           (''A/B'', \<lparr>path = ''./data/term/A-B.html'', link = ''ua''\<rparr>),
           (''Coupon'', \<lparr>path = ''./data/term/Coupon.html'', link = ''uc''\<rparr>),
           (''A-B'', \<lparr>path = ''./data/term/A-B.html'', link = ''ud''\<rparr>)],
          [(''Bond'', [''Yield'', ''Coupon'']), (''Yield'', [''Bond'', ''A/B'']),
           (''A/B'', [''Par'', ''Quo'']), (''Coupon'', [''A-B'', ''A/B'']),
           (''A-B'', [''Quo''])])"
  by (simp add: run_simps)

theorem depth_bounded_recursion_witness:
  "(0 :: int) \<le> 2 \<and>
   explore_related demo_env demo_seed demo_world ''Bond'' ''ub'' True 2 False =
     Inr ([(''Bond'', \<lparr>path = ''Bond.html'', link = ''ub''\<rparr>),
           (''Yield'', \<lparr>path = ''./data/term/Yield.html'', link = ''uy''\<rparr>),
           (''A/B'', \<lparr>path = ''./data/term/A-B.html'', link = ''ua''\<rparr>),
           (''Coupon'', \<lparr>path = ''./data/term/Coupon.html'', link = ''uc''\<rparr>),
           (''A-B'', \<lparr>path = ''./data/term/A-B.html'', link = ''ud''\<rparr>)],
          \<lparr>files = [''Bond.html'' \<mapsto> ''B'', ''./graph/article_map.json'' \<mapsto> ''S'',
                    ''./data/term/Yield.html'' \<mapsto> ''Y'', ''./data/term/A-B.html'' \<mapsto> ''P'',
                    ''./data/term/Coupon.html'' \<mapsto> ''C'', ''./data/term/A-B.html'' \<mapsto> ''Q''],
           requests = [''uy'', ''ua'', ''uc'', ''ud''], stdout = [],
           calls = [(''Bond'', 2), (''Yield'', 1), (''Bond'', 0), (''A/B'', 0),
                    (''Yield'', 1), (''Bond'', 0), (''A/B'', 0), (''Coupon'', 1),
                    (''A-B'', 0), (''A/B'', 0)]\<rparr>,
          [(''Yield'', \<lparr>path = ''./data/term/Yield.html'', link = ''uy''\<rparr>),
           (''A/B'', \<lparr>path = ''./data/term/A-B.html'', link = ''ua''\<rparr>),
           (''Coupon'', \<lparr>path = ''./data/term/Coupon.html'', link = ''uc''\<rparr>),
           (''A-B'', \<lparr>path = ''./data/term/A-B.html'', link = ''ud''\<rparr>)],
          [(''Bond'', [''Yield'', ''Coupon'']), (''Yield'', [''Bond'', ''A/B'']),
           (''A/B'', [''Par'', ''Quo'']), (''Coupon'', [''A-B'', ''A/B'']),
           (''A-B'', [''Quo''])]) \<and>
   list_all (\<lambda>(b, d'). 0 \<le> d' \<and> d' < 2)
     [(''Yield'', 1), (''Bond'', 0), (''A/B'', 0), (''Yield'', 1), (''Bond'', 0),
      (''A/B'', 0), (''Coupon'', 1), (''A-B'', 0), (''A/B'', 0 :: int)]"
  using depth_bounded_recursion [of 2 demo_env demo_seed demo_world "''Bond''" "''ub''" True False]
    demo_run_depth2
  by (simp add: demo_world_def)

section \<open>Merging the graph deltas of the recursive calls\<close>







section \<open>The driver\<close>

lemma explore_related_returns:
  obtains am' w' asub' gsub' where
    "explore_related e am w a u t depth r = Inr (am', w', asub', gsub')"
proof -
  obtain res where "explore_related e am w a u t depth r = Inr res"
    using explore_returns_aux(1) by blast
  then show ?thesis
    using that by (cases res) auto
qed

lemma seed_loop_Cons:
  assumes "map_of am a = Some d"
  shows "seed_loop e am (a # rest) depth r em w g =
     (if \<not> os_path_exists w (path d) then
        seed_loop e am rest depth r em
          (print (''Skipping '' @ a) (print (''Could not find path '' @ path d) w)) g
      else
        (case explore_related e em w a (link d) True depth r of
           Inl err \<Rightarrow> Inl err
         | Inr (em1, w1, asub, gsub) \<Rightarrow>
             seed_loop e am rest depth r (dict_update em1 asub) w1 (merge_graph g gsub)))"
  using assms by (simp add: dict_get_def Let_def)

declare seed_loop.simps(2) [simp del]

lemma seed_loop_returns:
  assumes "set ks \<subseteq> keys am"
  shows "\<exists>res. seed_loop e am ks depth r em w g = Inr res"
  using assms
proof (induction ks arbitrary: em w g)
  case Nil
  then show ?case by simp
next
  case (Cons a rest)
  then obtain d where d: "map_of am a = Some d"
    using keys_lookup [of a am] by auto
  from Cons.prems have rest: "set rest \<subseteq> keys am" by simp
  show ?case
  proof (cases "os_path_exists w (path d)")
    case False
    then show ?thesis
      using Cons.IH [OF rest] by (simp add: seed_loop_Cons [OF d])
  next
    case True
    obtain em1 w1 asub gsub where
      "explore_related e em w a (link d) True depth r = Inr (em1, w1, asub, gsub)"
      by (rule explore_related_returns)
    then show ?thesis
      using Cons.IH [OF rest] True by (simp add: seed_loop_Cons [OF d])
  qed
qed

lemma traverse_returns:
  "\<exists>expanded_map w' graph. traverse e am depth r w = Inr (expanded_map, w', graph)"
proof -
  have "set (map fst am) \<subseteq> keys am"
    by (simp add: keys_def)
  from seed_loop_returns [OF this]
  obtain res where "seed_loop e am (map fst am) depth r am w
      (fold (\<lambda>article acc. AList.update article [] acc) (map fst am) []) = Inr res"
    by blast
  then show ?thesis
    by (cases res) (auto simp: traverse_def Let_def)
qed

text \<open>
  C10. When the seed registry file \<^verbatim>\<open>./graph/article_map.json\<close> is absent, \<^verbatim>\<open>main\<close> prints
  two lines and exits with code 1, and no invocation of \<^verbatim>\<open>explore_related\<close> and no request
  has been made. When the file is there, \<^verbatim>\<open>main\<close> runs the traversal to its end and exits
  with code 0.
\<close>

theorem main_exit_codes:
  "(files w article_json = None \<longrightarrow>
      main e restart depth w =
        Inr (print ''Please be sure to run download.py before running this script.''
               (print (''Error: Could not detect required file '' @ article_json) w), 1) \<and>
      calls (print ''Please be sure to run download.py before running this script.''
               (print (''Error: Could not detect required file '' @ article_json) w)) = calls w \<and>
      requests (print ''Please be sure to run download.py before running this script.''
               (print (''Error: Could not detect required file '' @ article_json) w)) = requests w) \<and>
   (files w article_json \<noteq> None \<longrightarrow> (\<exists>w'. main e restart depth w = Inr (w', 0)))"
proof -
  have "\<exists>w'. main e restart depth w = Inr (w', 0)" if "files w article_json = Some content" for content
  proof -
    obtain expanded_map w1 graph where
      "traverse e (json_load e content) depth restart w = Inr (expanded_map, w1, graph)"
      using traverse_returns by blast
    then show ?thesis
      using that by (simp add: main_def Let_def)
  qed
  then show ?thesis
    by (auto simp: main_def)
qed

lemmas main_simps =
  main_def traverse_def seed_loop.simps article_json_def data_folder_def os_path_exists_def

lemma demo_main_depth0:
  "main demo_env False 0 demo_world =
     Inr (\<lparr>files = [''Bond.html'' \<mapsto> ''B'', ''./graph/article_map.json'' \<mapsto> ''S'',
                    ''./graph/expanded_article_map_depth0.json'' \<mapsto> ''Bond'',
                    ''./graph/term_article_graph_depth0.json'' \<mapsto> ''Bond''],
           requests = [], stdout = [], calls = [(''Bond'', 0)]\<rparr>, 0)"
  by (simp add: main_simps run_simps str_int_def)

theorem main_exit_codes_witness:
  "files (demo_world\<lparr>files := Map.empty\<rparr>) article_json = None \<and>
   main demo_env False 0 (demo_world\<lparr>files := Map.empty\<rparr>) =
     Inr (\<lparr>files = Map.empty, requests = [],
           stdout = [''Error: Could not detect required file ./graph/article_map.json'',
                     ''Please be sure to run download.py before running this script.''],
           calls = []\<rparr>, 1) \<and>
   files demo_world article_json \<noteq> None \<and>
   main demo_env False 0 demo_world =
     Inr (\<lparr>files = [''Bond.html'' \<mapsto> ''B'', ''./graph/article_map.json'' \<mapsto> ''S'',
                    ''./graph/expanded_article_map_depth0.json'' \<mapsto> ''Bond'',
                    ''./graph/term_article_graph_depth0.json'' \<mapsto> ''Bond''],
           requests = [], stdout = [], calls = [(''Bond'', 0)]\<rparr>, 0)"
  using main_exit_codes [of "demo_world\<lparr>files := Map.empty\<rparr>" demo_env False 0]
    main_exit_codes [of demo_world demo_env False 0] demo_main_depth0
  by (simp add: demo_world_def article_json_def data_folder_def os_path_join_def print_def)

section \<open>The traversal at depth 0\<close>

lemma files_get_article_requests: "requests (get_article e u p w) = requests w @ [u]"
  by (simp add: get_article_def Let_def print_def)

lemma files_report_missing [simp]: "files (report_missing p a w) = files w"
  by (simp add: report_missing_def)

lemma requests_report_missing [simp]: "requests (report_missing p a w) = requests w"
  by (simp add: report_missing_def)



lemma seed_loop_cases [consumes 2, case_names skip run]:
  assumes "seed_loop e am (a # rest) depth r em w g = Inr res" and "map_of am a = Some d"
  obtains
    (skip) "files w (path d) = None"
      "seed_loop e am rest depth r em
         (print (''Skipping '' @ a) (print (''Could not find path '' @ path d) w)) g = Inr res"
  | (run) em1 w1 asub gsub where "files w (path d) \<noteq> None"
      "explore_related e em w a (link d) True depth r = Inr (em1, w1, asub, gsub)"
      "seed_loop e am rest depth r (dict_update em1 asub) w1 (merge_graph g gsub) = Inr res"
proof (cases "files w (path d)")
  case None
  with assms show ?thesis
    by (intro skip) (simp_all add: seed_loop_Cons os_path_exists_def)
next
  case (Some content)
  obtain em1 w1 asub gsub where
    er: "explore_related e em w a (link d) True depth r = Inr (em1, w1, asub, gsub)"
    by (rule explore_related_returns)
  with assms Some show ?thesis
    by (intro run [of em1 w1 asub gsub]) (simp_all add: seed_loop_Cons os_path_exists_def)
qed

lemma seed_loop_distinct:
  assumes "seed_loop e am ks depth r em w g = Inr (em', w', g')"
    and "set ks \<subseteq> keys am" and "distinct (map fst g)"
  shows "distinct (map fst g')"
  using assms
proof (induction ks arbitrary: em w g)
  case Nil
  then show ?case by simp
next
  case (Cons a rest)
  then obtain d where d: "map_of am a = Some d"
    using keys_lookup [of a am] by auto
  from Cons.prems have rest: "set rest \<subseteq> keys am" by simp
  from Cons.prems(1) d show ?case
  proof (cases rule: seed_loop_cases)
    case skip
    from Cons.IH [OF skip(2) rest Cons.prems(3)] show ?thesis .
  next
    case (run em1 w1 asub gsub)
    have "distinct (map fst (merge_graph g gsub))"
      using Cons.prems(3) by (rule distinct_merge_graph)
    from Cons.IH [OF run(3) rest this] show ?thesis .
  qed
qed




lemma empty_graph_inv:
  "keys (fold (\<lambda>article acc. AList.update article [] acc) ks g) = keys g \<union> set ks \<and>
   (distinct (map fst g) \<longrightarrow>
      distinct (map fst (fold (\<lambda>article acc. AList.update article [] acc) ks g))) \<and>
   ((\<forall>k. edges g k = {}) \<longrightarrow>
      (\<forall>k. edges (fold (\<lambda>article acc. AList.update article ([] :: string list) acc) ks g) k = {}))"
proof (induction ks arbitrary: g)
  case Nil
  then show ?case by simp
next
  case (Cons a ks)
  have "\<forall>k. edges (AList.update a [] g) k = {}" if "\<forall>k. edges g k = {}"
    using that by (simp add: edges_def update_conv')
  with Cons [of "AList.update a [] g"] show ?case
    by (auto simp: distinct_update)
qed



lemma traverse_cases:
  assumes "traverse e am depth r w = Inr (em, w', graph)"
  obtains g' where
    "seed_loop e am (map fst am) depth r am w
       (fold (\<lambda>article acc. AList.update article [] acc) (map fst am) []) = Inr (em, w', g')"
    "graph = collapse g'" "distinct (map fst g')"
proof -
  let ?g0 = "fold (\<lambda>article acc. AList.update article ([] :: string list) acc) (map fst am) []"
  have sub: "set (map fst am) \<subseteq> keys am"
    by (simp add: keys_def)
  obtain res where res: "seed_loop e am (map fst am) depth r am w ?g0 = Inr res"
    using seed_loop_returns [OF sub] by blast
  obtain em1 w1 g1 where r1: "res = (em1, w1, g1)"
    by (cases res)
  from assms res r1 have eq: "em = em1" "w' = w1" "graph = collapse g1"
    by (simp_all add: traverse_def Let_def)
  have "distinct (map fst ?g0)"
    using empty_graph_inv [of "map fst am" "[]"] by simp
  then have "distinct (map fst g1)"
    using seed_loop_distinct [OF res [unfolded r1] sub] by simp
  with res r1 eq show ?thesis
    by (intro that [of g1]) simp_all
qed





section \<open>Running the traversal again\<close>

lemma registry_closed_agree:
  assumes "registry_closed e am w" and "\<forall>(a, d) \<in> set am. files v (path d) = files w (path d)"
  shows "registry_closed e am v"
  using assms unfolding registry_closed_def by fastforce

lemma registry_closed_files:
  assumes "registry_closed e am w" and "files v = files w"
  shows "registry_closed e am v"
  using assms(1) by (rule registry_closed_agree) (simp add: assms(2))

lemma registry_closed_links:
  assumes "registry_closed e am w" and "map_of am a = Some d" and "files w (path d) = Some content"
  shows "\<forall>l \<in> set (outbound_links_of e content). fst l \<in> keys am"
proof -
  have "(a, d) \<in> set am"
    using assms(2) by (rule map_of_SomeD)
  with assms(1,3) show ?thesis
    unfolding registry_closed_def by fastforce
qed

lemma download_step_quiet:
  assumes "a \<in> keys am"
  shows "download_step e am (w\<lparr>calls := calls w @ [(a, depth)]\<rparr>) a u t False =
           Inr (am, w\<lparr>calls := calls w @ [(a, depth)]\<rparr>, [])"
  using assms by (simp add: download_step_known)

lemma explore_closed_nochange:
  shows "\<not> r \<Longrightarrow> registry_closed e am w \<Longrightarrow> a \<in> keys am \<Longrightarrow>
         explore_related e am w a u t depth r = Inr (am', w', asub', gsub') \<Longrightarrow>
         am' = am \<and> asub' = [] \<and> files w' = files w \<and> requests w' = requests w"
    and "\<not> r \<Longrightarrow> registry_closed e am w \<Longrightarrow> \<forall>l \<in> set ls. fst l \<in> keys am \<Longrightarrow>
         explore_links e am w ls depth r asub gsub = Inr (am', w', asub', gsub') \<Longrightarrow>
         am' = am \<and> asub' = asub \<and> files w' = files w \<and> requests w' = requests w"
proof (induction e am w a u t depth r and e am w ls depth r asub gsub
    arbitrary: am' w' asub' gsub' and am' w' asub' gsub' rule: explore_induct)
  case (related e am w a u t depth r)
  let ?w0 = "w\<lparr>calls := calls w @ [(a, depth)]\<rparr>"
  have ds: "download_step e am ?w0 a u t r = Inr (am, ?w0, [])"
    using related.prems(1,3) download_step_quiet [of a am e w depth u t] by simp
  from related.prems(4) show ?case
  proof (cases rule: explore_related_cases)
    case (missing w1 d)
    with ds show ?thesis by simp
  next
    case (leaf d content)
    with ds show ?thesis by simp
  next
    case (node am1 w1 asub1 d content gsub2)
    from node(1) ds have eq: "am1 = am" "w1 = ?w0" "asub1 = []" by simp_all
    have cl: "registry_closed e am1 w1"
      using related.prems(2) eq by (auto intro: registry_closed_files)
    have "files w (path d) = Some content"
      using node(3) eq by simp
    then have ls: "\<forall>l \<in> set (outbound_links_of e content). fst l \<in> keys am1"
      using registry_closed_links [OF related.prems(2)] node(2) eq by simp
    from related.IH [OF node(1,2,3,4) related.prems(1) cl ls node(5)] eq show ?thesis
      by simp
  qed
next
  case (nil e am w depth r asub gsub)
  then show ?case by simp
next
  case (cons e am w l rest depth r asub gsub)
  from cons.prems(4) show ?case
  proof (cases rule: explore_links_cases)
    case (1 am1 w1 sub gsub1)
    have l: "fst l \<in> keys am" and rest: "\<forall>l \<in> set rest. fst l \<in> keys am"
      using cons.prems(3) by simp_all
    from cons.IH(1) [OF cons.prems(1,2) l 1(1)]
    have p: "am1 = am" "sub = []" "files w1 = files w" "requests w1 = requests w"
      by simp_all
    have cl: "registry_closed e am1 w1"
      using cons.prems(2) p by (auto intro: registry_closed_files)
    from cons.IH(2) [OF 1(1) cons.prems(1) cl _ 1(2)] rest p show ?thesis
      by simp
  qed
qed

lemma agree_lookup:
  assumes "\<forall>(a, d) \<in> set am. files v (path d) = files w (path d)" and "map_of am a = Some d"
  shows "files v (path d) = files w (path d)"
  using assms map_of_SomeD [OF assms(2)] by fastforce

lemma explore_closed_same_graph:
  shows "\<not> r \<Longrightarrow> registry_closed e am w \<Longrightarrow> a \<in> keys am \<Longrightarrow>
         \<forall>(b, d) \<in> set am. files v (path d) = files w (path d) \<Longrightarrow>
         explore_related e am w a u t depth r = Inr (am', w', asub', gsub') \<Longrightarrow>
         \<exists>v'. explore_related e am v a u t depth r = Inr (am', v', asub', gsub')"
    and "\<not> r \<Longrightarrow> registry_closed e am w \<Longrightarrow> \<forall>l \<in> set ls. fst l \<in> keys am \<Longrightarrow>
         \<forall>(b, d) \<in> set am. files v (path d) = files w (path d) \<Longrightarrow>
         explore_links e am w ls depth r asub gsub = Inr (am', w', asub', gsub') \<Longrightarrow>
         \<exists>v'. explore_links e am v ls depth r asub gsub = Inr (am', v', asub', gsub')"
proof (induction e am w a u t depth r and e am w ls depth r asub gsub
    arbitrary: am' w' asub' gsub' v and am' w' asub' gsub' v rule: explore_induct)
  case (related e am w a u t depth r)
  let ?w0 = "w\<lparr>calls := calls w @ [(a, depth)]\<rparr>"
  let ?v0 = "v\<lparr>calls := calls v @ [(a, depth)]\<rparr>"
  have dsw: "download_step e am ?w0 a u t r = Inr (am, ?w0, [])"
    using related.prems(1,3) download_step_quiet [of a am e w depth u t] by simp
  have dsv: "download_step e am ?v0 a u t r = Inr (am, ?v0, [])"
    using related.prems(1,3) download_step_quiet [of a am e v depth u t] by simp
  obtain d where d: "map_of am a = Some d"
    using related.prems(3) keys_lookup by blast
  have fv: "files ?v0 (path d) = files ?w0 (path d)"
    using agree_lookup [OF related.prems(4) d] by simp
  show ?case
  proof (cases "files ?w0 (path d)")
    case None
    with related.prems(5) explore_related_missing [OF dsw d None]
      explore_related_missing [OF dsv d] fv
    show ?thesis by simp
  next
    case (Some content)
    show ?thesis
    proof (cases "0 < depth")
      case False
      with related.prems(5) explore_related_leaf [OF dsw d Some False]
        explore_related_leaf [OF dsv d _ False, of content] fv Some
      show ?thesis by simp
    next
      case True
      obtain res where "explore_links e am ?w0 (outbound_links_of e content) depth r []
          (add_own_edges [] a (outbound_links_of e content)) = Inr res"
        using explore_returns_aux(2) by blast
      then obtain am2 w2 asub2 gsub2 where
        el: "explore_links e am ?w0 (outbound_links_of e content) depth r []
          (add_own_edges [] a (outbound_links_of e content)) = Inr (am2, w2, asub2, gsub2)"
        by (cases res) auto
      have res: "am' = am2" "asub' = asub2" "gsub' = collapse gsub2"
        using explore_related_node [OF dsw d Some True el] related.prems(5) by simp_all
      have cl: "registry_closed e am ?w0"
        using related.prems(2) by (rule registry_closed_files) simp
      have "files w (path d) = Some content"
        using Some by simp
      then have ls: "\<forall>l \<in> set (outbound_links_of e content). fst l \<in> keys am"
        using registry_closed_links [OF related.prems(2) d] by simp
      have ag: "\<forall>(b, d) \<in> set am. files ?v0 (path d) = files ?w0 (path d)"
        using related.prems(4) by simp
      from related.IH [OF dsw d Some True related.prems(1) cl ls ag el] obtain v' where
        "explore_links e am ?v0 (outbound_links_of e content) depth r []
          (add_own_edges [] a (outbound_links_of e content)) = Inr (am2, v', asub2, gsub2)"
        by blast
      from explore_related_node [OF dsv d _ True this] fv Some res show ?thesis
        by simp
    qed
  qed
next
  case (nil e am w depth r asub gsub)
  then show ?case by simp
next
  case (cons e am w l rest depth r asub gsub)
  from cons.prems(5) show ?case
  proof (cases rule: explore_links_cases)
    case (1 am1 w1 sub gsub1)
    have l: "fst l \<in> keys am" and rest: "\<forall>l \<in> set rest. fst l \<in> keys am"
      using cons.prems(3) by simp_all
    from explore_closed_nochange(1) [OF cons.prems(1,2) l 1(1)]
    have p: "am1 = am" "sub = []" "files w1 = files w"
      by simp_all
    from cons.IH(1) [OF cons.prems(1,2) l cons.prems(4) 1(1)] obtain v1 where
      v1: "explore_related e am v (fst l) (fst (snd l)) (snd (snd l)) (depth - 1) r =
             Inr (am1, v1, sub, gsub1)"
      by blast
    have clv: "registry_closed e am v"
      using cons.prems(2,4) by (rule registry_closed_agree)
    from explore_closed_nochange(1) [OF cons.prems(1) clv l v1]
    have fv1: "files v1 = files v" by simp
    have cl1: "registry_closed e am1 w1"
      using cons.prems(2) p by (auto intro: registry_closed_files)
    have rest1: "\<forall>l \<in> set rest. fst l \<in> keys am1"
      using rest p by simp
    have ag1: "\<forall>(b, d) \<in> set am1. files v1 (path d) = files w1 (path d)"
      using cons.prems(4) p fv1 by simp
    from cons.IH(2) [OF 1(1) cons.prems(1) cl1 rest1 ag1 1(2)] obtain v' where
      "explore_links e am1 v1 rest depth r (dict_update asub sub) (merge_graph gsub gsub1) =
         Inr (am', v', asub', gsub')"
      by blast
    then show ?thesis
      using explore_links_step [OF v1, of rest asub gsub] by simp
  qed
qed

lemma seed_loop_closed:
  assumes "seed_loop e am ks depth False am w g = Inr (em', w', g')"
    and "registry_closed e am w" and "set ks \<subseteq> keys am"
    and "\<forall>(a, d) \<in> set am. files v (path d) = files w (path d)"
  shows "em' = am \<and> files w' = files w \<and> requests w' = requests w \<and>
         (\<exists>v'. seed_loop e am ks depth False am v g = Inr (am, v', g') \<and>
               files v' = files v \<and> requests v' = requests v)"
  using assms
proof (induction ks arbitrary: w v g)
  case Nil
  then show ?case by simp
next
  case (Cons a rest)
  then obtain d where d: "map_of am a = Some d"
    using keys_lookup [of a am] by auto
  from Cons.prems have rest: "set rest \<subseteq> keys am" and a: "a \<in> keys am" by simp_all
  have fv: "files v (path d) = files w (path d)"
    using agree_lookup [OF Cons.prems(4) d] .
  from Cons.prems(1) d show ?case
  proof (cases rule: seed_loop_cases)
    case skip
    let ?w1 = "print (''Skipping '' @ a) (print (''Could not find path '' @ path d) w)"
    let ?v1 = "print (''Skipping '' @ a) (print (''Could not find path '' @ path d) v)"
    have cl: "registry_closed e am ?w1"
      using Cons.prems(2) by (rule registry_closed_files) simp
    have ag: "\<forall>(a, d) \<in> set am. files ?v1 (path d) = files ?w1 (path d)"
      using Cons.prems(4) by simp
    from Cons.IH [OF skip(2) cl rest ag] obtain v' where
      ih: "em' = am" "files w' = files w" "requests w' = requests w"
        "seed_loop e am rest depth False am ?v1 g = Inr (am, v', g')"
        "files v' = files v" "requests v' = requests v"
      by auto
    have "seed_loop e am (a # rest) depth False am v g = Inr (am, v', g')"
      using ih(4) skip(1) fv by (simp add: seed_loop_Cons [OF d] os_path_exists_def)
    with ih show ?thesis by blast
  next
    case (run em1 w1 asub gsub)
    have nr: "\<not> False" by simp
    from explore_closed_nochange(1) [OF nr Cons.prems(2) a run(2)]
    have p: "em1 = am" "asub = []" "files w1 = files w" "requests w1 = requests w"
      by simp_all
    from explore_closed_same_graph(1) [OF nr Cons.prems(2) a Cons.prems(4) run(2)] obtain v1 where
      v1: "explore_related e am v a (link d) True depth False = Inr (em1, v1, asub, gsub)"
      by blast
    have clv: "registry_closed e am v"
      using Cons.prems(2,4) by (rule registry_closed_agree)
    from explore_closed_nochange(1) [OF nr clv a v1]
    have q: "files v1 = files v" "requests v1 = requests v"
      by simp_all
    have cl1: "registry_closed e am w1"
      using Cons.prems(2) p(3) by (rule registry_closed_files)
    have ag1: "\<forall>(a, d) \<in> set am. files v1 (path d) = files w1 (path d)"
      using Cons.prems(4) p(3) q(1) by simp
    from run(3) p have "seed_loop e am rest depth False am w1 (merge_graph g gsub) = Inr (em', w', g')"
      by simp
    from Cons.IH [OF this cl1 rest ag1] obtain v' where
      ih: "em' = am" "files w' = files w1" "requests w' = requests w1"
        "seed_loop e am rest depth False am v1 (merge_graph g gsub) = Inr (am, v', g')"
        "files v' = files v1" "requests v' = requests v1"
      by auto
    have "seed_loop e am (a # rest) depth False am v g = Inr (am, v', g')"
      using ih(4) v1 p run(1) fv by (simp add: seed_loop_Cons [OF d] os_path_exists_def)
    with ih p q show ?thesis by simp
  qed
qed

text \<open>
  C7. Take a registry that holds every identifier its pages on disk refer to, and run the
  traversal without \<^verbatim>\<open>restart\<close>. The run makes no request and changes no file and returns
  the registry it was given; and the traversal from any world whose files at the registered
  paths are those the run left (the world the run left, in particular) returns the same
  registry and the same graph, again without a request or a change of a file.
\<close>

theorem rerun_same_graph:
  assumes "registry_closed e article_map w"
    and "traverse e article_map depth False w = Inr (expanded_map, w', graph)"
    and "\<forall>(a, d) \<in> set article_map. files v (path d) = files w' (path d)"
  shows "expanded_map = article_map \<and> requests w' = requests w \<and> files w' = files w \<and>
         (\<exists>v'. traverse e article_map depth False v = Inr (article_map, v', graph) \<and>
               requests v' = requests v \<and> files v' = files v)"
proof -
  let ?g0 = "fold (\<lambda>article acc. AList.update article ([] :: string list) acc) (map fst article_map) []"
  have sub: "set (map fst article_map) \<subseteq> keys article_map"
    by (simp add: keys_def)
  from assms(2) obtain g' where
    sl: "seed_loop e article_map (map fst article_map) depth False article_map w ?g0 =
           Inr (expanded_map, w', g')"
    and g: "graph = collapse g'"
    by (rule traverse_cases)
  have first: "expanded_map = article_map \<and> files w' = files w \<and> requests w' = requests w"
    using seed_loop_closed [OF sl assms(1) sub, of w] by simp
  then have ag: "\<forall>(a, d) \<in> set article_map. files v (path d) = files w (path d)"
    using assms(3) by simp
  from seed_loop_closed [OF sl assms(1) sub ag] obtain v' where
    "seed_loop e article_map (map fst article_map) depth False article_map v ?g0 =
       Inr (article_map, v', g')" "files v' = files v" "requests v' = requests v"
    by blast
  then have "traverse e article_map depth False v = Inr (article_map, v', graph) \<and>
      requests v' = requests v \<and> files v' = files v"
    using g by (simp add: traverse_def Let_def)
  with first show ?thesis by blast
qed

lemma demo_full_closed: "registry_closed demo_env demo_full demo_full_world"
  by (simp add: registry_closed_def demo_full_def demo_full_world_def demo_env_def
      outbound_links_of_def)

lemmas full_simps = demo_full_def demo_full_world_def

lemma demo_full_run:
  "traverse demo_env demo_full 1 False demo_full_world =
     Inr (demo_full,
          \<lparr>files = [''Bond.html'' \<mapsto> ''B'', ''./data/term/Yield.html'' \<mapsto> ''Y'',
                    ''./data/term/Coupon.html'' \<mapsto> ''Z'', ''./data/term/A-B.html'' \<mapsto> ''Z''],
           requests = [], stdout = [],
           calls = [(''Bond'', 1), (''Yield'', 0), (''Yield'', 0), (''Coupon'', 0),
                    (''Yield'', 1), (''Bond'', 0), (''A/B'', 0), (''Coupon'', 1), (''A/B'', 1)]\<rparr>,
          [(''Bond'', [''Yield'', ''Coupon'']), (''Yield'', [''Bond'', ''A/B'']),
           (''Coupon'', []), (''A/B'', [])])"
  by (simp add: main_simps run_simps full_simps)

theorem rerun_same_graph_witness:
  "traverse demo_env demo_full 1 False demo_full_world =
     Inr (demo_full,
          \<lparr>files = [''Bond.html'' \<mapsto> ''B'', ''./data/term/Yield.html'' \<mapsto> ''Y'',
                    ''./data/term/Coupon.html'' \<mapsto> ''Z'', ''./data/term/A-B.html'' \<mapsto> ''Z''],
           requests = [], stdout = [],
           calls = [(''Bond'', 1), (''Yield'', 0), (''Yield'', 0), (''Coupon'', 0),
                    (''Yield'', 1), (''Bond'', 0), (''A/B'', 0), (''Coupon'', 1), (''A/B'', 1)]\<rparr>,
          [(''Bond'', [''Yield'', ''Coupon'']), (''Yield'', [''Bond'', ''A/B'']),
           (''Coupon'', []), (''A/B'', [])]) \<and>
   (\<exists>v'. traverse demo_env demo_full 1 False (demo_full_world\<lparr>stdout := [''second run'']\<rparr>) =
          Inr (demo_full, v',
               [(''Bond'', [''Yield'', ''Coupon'']), (''Yield'', [''Bond'', ''A/B'']),
                (''Coupon'', []), (''A/B'', [])]) \<and>
        requests v' = requests (demo_full_world\<lparr>stdout := [''second run'']\<rparr>) \<and>
        files v' = files (demo_full_world\<lparr>stdout := [''second run'']\<rparr>))"
proof -
  have ag: "\<forall>(a, d) \<in> set demo_full.
      files (demo_full_world\<lparr>stdout := [''second run'']\<rparr>) (path d) =
      files \<lparr>files = [''Bond.html'' \<mapsto> ''B'', ''./data/term/Yield.html'' \<mapsto> ''Y'',
                    ''./data/term/Coupon.html'' \<mapsto> ''Z'', ''./data/term/A-B.html'' \<mapsto> ''Z''],
           requests = [], stdout = [],
           calls = [(''Bond'', 1), (''Yield'', 0), (''Yield'', 0), (''Coupon'', 0),
                    (''Yield'', 1), (''Bond'', 0), (''A/B'', 0), (''Coupon'', 1), (''A/B'', 1)]\<rparr>
        (path d)"
    by (simp add: demo_full_def demo_full_world_def)
  from rerun_same_graph [OF demo_full_closed demo_full_run ag] demo_full_run
  show ?thesis by blast
qed

end
